theory Spec2Isabelle
  imports Main
begin

section \<open>JavaScript strings\<close>

text \<open>
  A JavaScript string is a sequence of UTF-16 code units; \<open>charCodeAt\<close> reads one of
  them as a number. The terminal chunk is turned into such a string by
  \<open>chunk.toString()\<close>. Code units are modelled as natural numbers (the values
  0 to 65535 are the ones JavaScript can produce).
\<close>

type_synonym js_string = "nat list"

definition str :: "string \<Rightarrow> js_string" where
  "str cs = map of_char cs"

text \<open>
  \<open>String.prototype.trim\<close> strips the ECMAScript WhiteSpace and LineTerminator
  code points from both ends: TAB, LF, VT, FF, CR, SP, NBSP, the Unicode space
  separators, LS, PS and the byte order mark.
\<close>

definition is_whitespace :: "nat \<Rightarrow> bool" where
  "is_whitespace c \<longleftrightarrow>
     c \<in> {9, 10, 11, 12, 13, 32, 160, 5760, 8232, 8233, 8239, 8287, 12288, 65279}
     \<or> (8192 \<le> c \<and> c \<le> 8202)"

definition trim :: "js_string \<Rightarrow> js_string" where
  "trim s = rev (dropWhile is_whitespace (rev (dropWhile is_whitespace s)))"

text \<open>
  \<open>s.slice(start, end)\<close> and \<open>s.slice(start)\<close>: a negative index counts from the
  end, every index is clamped to the string, and an empty range gives the empty string.
\<close>

definition slice :: "js_string \<Rightarrow> int \<Rightarrow> int \<Rightarrow> js_string" where
  "slice s start end =
     (let len = int (length s);
          from = (if start < 0 then max (len + start) 0 else min start len);
          to = (if end < 0 then max (len + end) 0 else min end len)
      in take (nat (to - from)) (drop (nat from) s))"

definition slice_from :: "js_string \<Rightarrow> int \<Rightarrow> js_string" where
  "slice_from s start = slice s start (int (length s))"

text \<open>The decimal digits of a non-negative number, as string concatenation produces them.\<close>

fun decimal :: "nat \<Rightarrow> js_string" where
  "decimal n = (if n < 10 then [48 + n] else decimal (n div 10) @ [48 + n mod 10])"

declare decimal.simps [simp del]

text \<open>
  \<open>a <= b\<close> on strings compares code unit by code unit; a proper prefix is smaller.
\<close>

fun js_le :: "js_string \<Rightarrow> js_string \<Rightarrow> bool" where
  "js_le [] ys = True"
| "js_le (x # xs) [] = False"
| "js_le (x # xs) (y # ys) = (x < y \<or> (x = y \<and> js_le xs ys))"

section \<open>The line editor of \<open>getMultiLineInput\<close>\<close>

text \<open>
  Everything the function does to the outside world, in the order it does it.
\<close>

datatype effect =
    Set_raw_mode bool
  | Stdin_resume
  | Stdin_pause
  | Stdin_set_encoding string
  | Remove_data_listener
  | Stdout_write js_string
  | Display_menu int
  | Show_goodbye
  | Show_info string
  | Client_cleanup
  | Process_exit int
  | Promise_resolve js_string

text \<open>
  The three \<open>let\<close> variables of the closure, and the effects performed so far.
\<close>

record edit =
  inputBuffer :: js_string
  currentLine :: js_string
  cursorPos :: int
  trace :: "effect list"

text \<open>
  What the closure reads from outside: the prompt of \<open>this.ui.getUserPrompt()\<close>, the
  raw mode saved in \<open>originalRawMode\<close>, and \<open>config.SELF_DESTRUCT\<close>.
\<close>

record env =
  userPrompt :: js_string
  originalRawMode :: bool
  SELF_DESTRUCT :: bool

definition emit :: "effect list \<Rightarrow> edit \<Rightarrow> edit" where
  "emit es s = s\<lparr>trace := trace s @ es\<rparr>"

text \<open>The local \<open>cleanup\<close> of \<open>getMultiLineInput\<close>.\<close>

definition cleanup :: "env \<Rightarrow> edit \<Rightarrow> edit" where
  "cleanup e s = emit [Set_raw_mode (originalRawMode e), Remove_data_listener] s"

text \<open>
  The way a line joins \<open>inputBuffer\<close>, written out in the Enter and in the Line Feed
  branch: the first line replaces an empty buffer, a later one follows a \<open>\n\<close>.
\<close>

definition append_line :: "js_string \<Rightarrow> js_string \<Rightarrow> js_string" where
  "append_line buf line = (if buf = [] then line else buf @ [10] @ line)"

text \<open>
  The specification's \<open>join(lines, "\n")\<close>: the lines in order, a \<open>\n\<close> between each
  two of them. It follows the words of the specification, to be compared with the
  buffer that \<open>append_line\<close> builds.
\<close>

fun join_lines :: "js_string list \<Rightarrow> js_string" where
  "join_lines [] = []"
| "join_lines [l] = l"
| "join_lines (l # l' # ls) = l @ [10] @ join_lines (l' # ls)"

text \<open>
  How one pass through the body of the \<open>for\<close> loop ends: the loop goes on at the
  next index with the new state, the promise is resolved and \<open>onData\<close> returns, or
  the process exits.
\<close>

datatype outcome =
    Listening edit
  | Resolved js_string edit
  | Exited edit

datatype iteration =
    Next nat edit
  | Done outcome

text \<open>Ctrl+C (3).\<close>

definition ctrl_c :: "env \<Rightarrow> edit \<Rightarrow> edit" where
  "ctrl_c e s =
     emit [Client_cleanup, Process_exit 0]
       (emit (if SELF_DESTRUCT e
              then [Show_info ''Self-destruct mode: Removing all traces...''] else [])
         (emit [Show_goodbye] (cleanup e s)))"

text \<open>
  Enter (13). \<open>i\<close> is the index of the CR; the result carries the index the loop
  continues at, which is past a line feed that follows directly.
\<close>

definition enter :: "env \<Rightarrow> js_string \<Rightarrow> nat \<Rightarrow> edit \<Rightarrow> iteration" where
  "enter e input i s =
     (let nextChar = (if i + 1 < length input then Some (input ! (i + 1)) else None);
          i1 = (if nextChar = Some 10 then i + 1 else i);
          s1 = (if trim (currentLine s) \<noteq> [] \<or> inputBuffer s \<noteq> []
                then s\<lparr>inputBuffer := append_line (inputBuffer s) (currentLine s)\<rparr>
                else s)
      in if trim (inputBuffer s1) \<noteq> []
         then Done (Resolved (trim (inputBuffer s1))
                (emit [Stdout_write [10], Promise_resolve (trim (inputBuffer s1))]
                   (cleanup e s1)))
         else Next (i1 + 1)
                (emit [Stdout_write ([10] @ userPrompt e)]
                   (s1\<lparr>currentLine := [], cursorPos := 0\<rparr>)))"

text \<open>Line Feed (10).\<close>

definition line_feed :: "edit \<Rightarrow> edit" where
  "line_feed s =
     emit [Stdout_write (str ''\<newline>  > '')]
       (s\<lparr>inputBuffer := append_line (inputBuffer s) (currentLine s),
          currentLine := [], cursorPos := 0\<rparr>)"

text \<open>The cursor is moved back over the tail of the line that was just rewritten.\<close>

definition move_back :: "edit \<Rightarrow> edit" where
  "move_back s =
     (let moveBack = int (length (currentLine s)) - cursorPos s
      in if moveBack > 0
         then emit [Stdout_write ([27, 91] @ decimal (nat moveBack) @ [68])] s
         else s)"

text \<open>Backspace (8 or 127).\<close>

definition backspace :: "edit \<Rightarrow> edit" where
  "backspace s =
     (if length (currentLine s) > 0 \<and> cursorPos s > 0
      then
        (let line = slice (currentLine s) 0 (cursorPos s - 1)
                      @ slice_from (currentLine s) (cursorPos s);
             pos = cursorPos s - 1
         in move_back
              (emit [Stdout_write ([8, 27, 91, 75] @ slice_from line pos)]
                 (s\<lparr>currentLine := line, cursorPos := pos\<rparr>)))
      else s)"

text \<open>A printable character (32 to 126).\<close>

definition printable :: "nat \<Rightarrow> edit \<Rightarrow> edit" where
  "printable char s =
     (let line = slice (currentLine s) 0 (cursorPos s) @ [char]
                   @ slice_from (currentLine s) (cursorPos s);
          pos = cursorPos s + 1
      in move_back
           (emit [Stdout_write ([char] @ slice_from line pos)]
              (s\<lparr>currentLine := line, cursorPos := pos\<rparr>)))"

text \<open>The \<open>switch\<close> on the third code unit of \<open>ESC [ key\<close>.\<close>

definition arrow_key :: "nat \<Rightarrow> edit \<Rightarrow> edit" where
  "arrow_key key s =
     (if key = 68 then
        (if cursorPos s > 0
         then emit [Stdout_write [27, 91, 68]] (s\<lparr>cursorPos := cursorPos s - 1\<rparr>)
         else s)
      else if key = 67 then
        (if cursorPos s < int (length (currentLine s))
         then emit [Stdout_write [27, 91, 67]] (s\<lparr>cursorPos := cursorPos s + 1\<rparr>)
         else s)
      else s)"

text \<open>Escape (27).\<close>

definition escape :: "js_string \<Rightarrow> nat \<Rightarrow> edit \<Rightarrow> iteration" where
  "escape input i s =
     (if i + 2 < length input \<and> input ! (i + 1) = 91
      then Next (i + 2 + 1) (arrow_key (input ! (i + 2)) s)
      else Next (i + 1) s)"

text \<open>
  The body of \<open>for (let i = 0; i < input.length; i++)\<close> at an index \<open>i\<close> inside
  the chunk: the \<open>if\<close>/\<open>else if\<close> chain on \<open>charCode\<close>, in the order of the source.
  A code unit that no branch takes is passed over.
\<close>

definition loop_body :: "env \<Rightarrow> js_string \<Rightarrow> nat \<Rightarrow> edit \<Rightarrow> iteration" where
  "loop_body e input i s =
     (let charCode = input ! i in
      if charCode = 3 then Done (Exited (ctrl_c e s))
      else if charCode = 13 then enter e input i s
      else if charCode = 10 then Next (i + 1) (line_feed s)
      else if charCode = 8 \<or> charCode = 127 then Next (i + 1) (backspace s)
      else if charCode \<ge> 32 \<and> charCode \<le> 126 then Next (i + 1) (printable charCode s)
      else if charCode = 27 then escape input i s
      else Next (i + 1) s)"

function onData_loop :: "env \<Rightarrow> js_string \<Rightarrow> nat \<Rightarrow> edit \<Rightarrow> outcome" where
  "onData_loop e input i s =
     (if i < length input
      then (case loop_body e input i s of
              Next i' s' \<Rightarrow> onData_loop e input i' s'
            | Done r \<Rightarrow> r)
      else Listening s)"
  by pat_completeness auto
termination
  by (relation "measure (\<lambda>(e, input, i, s). length input - i)")
     (auto simp: loop_body_def enter_def escape_def Let_def split: if_splits)

declare onData_loop.simps [simp del]

definition onData :: "env \<Rightarrow> js_string \<Rightarrow> edit \<Rightarrow> outcome" where
  "onData e chunk s = onData_loop e chunk 0 s"

text \<open>
  The state when the listener is installed: raw mode on, the prompt written.
\<close>

definition initial :: "env \<Rightarrow> edit" where
  "initial e =
     \<lparr>inputBuffer = [], currentLine = [], cursorPos = 0,
      trace = [Set_raw_mode True, Stdin_resume, Stdout_write (userPrompt e)]\<rparr>"

text \<open>
  The chunks arrive one \<open>data\<close> event after the other. Once the promise is resolved or
  the process has exited the listener is gone, and later chunks reach nobody.
\<close>

fun feed :: "env \<Rightarrow> edit \<Rightarrow> js_string list \<Rightarrow> outcome" where
  "feed e s [] = Listening s"
| "feed e s (chunk # chunks) =
     (case onData e chunk s of
        Listening s' \<Rightarrow> feed e s' chunks
      | r \<Rightarrow> r)"

definition getMultiLineInput :: "env \<Rightarrow> js_string list \<Rightarrow> outcome" where
  "getMultiLineInput e chunks = feed e (initial e) chunks"

text \<open>
  The loop passes through the chunk unit by unit. \<open>next_index\<close> is the index it goes on
  at after the unit that starts at \<open>i\<close>, whenever it goes on: behind the LF that the
  Enter branch skips, behind the \<open>[\<close> and the key that the Escape branch skips, and
  behind the single code unit otherwise. It depends on the chunk alone.
\<close>

definition next_index :: "js_string \<Rightarrow> nat \<Rightarrow> nat" where
  "next_index input i =
     (if input ! i = 13 \<and> i + 1 < length input \<and> input ! (i + 1) = 10 then i + 2
      else if input ! i = 27 \<and> i + 2 < length input \<and> input ! (i + 1) = 91 then i + 3
      else i + 1)"

text \<open>The indices of the chunk, from \<open>i\<close> on, at which a unit starts.\<close>

function unit_starts :: "js_string \<Rightarrow> nat \<Rightarrow> nat list" where
  "unit_starts input i =
     (if i < length input then i # unit_starts input (next_index input i) else [])"
  by pat_completeness auto
termination
  by (relation "measure (\<lambda>(input, i). length input - i)") (auto simp: next_index_def)

declare unit_starts.simps [simp del]

text \<open>
  The state in which the loop, standing at index \<open>i\<close> in state \<open>s\<close>, comes to stand at
  index \<open>k\<close>; \<open>None\<close> when it returns before it gets there or steps over \<open>k\<close>.
\<close>

function state_at :: "env \<Rightarrow> js_string \<Rightarrow> nat \<Rightarrow> edit \<Rightarrow> nat \<Rightarrow> edit option" where
  "state_at e input i s k =
     (if i = k then Some s
      else if i < k \<and> i < length input
      then (case loop_body e input i s of
              Next i' s' \<Rightarrow> state_at e input i' s' k
            | Done r \<Rightarrow> None)
      else None)"
  by pat_completeness auto
termination
  by (relation "measure (\<lambda>(e, input, i, s, k). length input - i)")
     (auto simp: loop_body_def enter_def escape_def Let_def split: if_splits)

declare state_at.simps [simp del]

text \<open>The value the caller of \<open>getMultiLineInput\<close> receives, if the promise is resolved.\<close>

fun returned :: "outcome \<Rightarrow> js_string option" where
  "returned (Resolved v s) = Some v"
| "returned (Listening s) = None"
| "returned (Exited s) = None"

text \<open>The cursor lies inside the current line.\<close>

definition cursor_in_line :: "edit \<Rightarrow> bool" where
  "cursor_in_line s \<longleftrightarrow> 0 \<le> cursorPos s \<and> cursorPos s \<le> int (length (currentLine s))"

text \<open>
  The states of the editor: the one the listener starts with, and every state that one
  pass through the loop body makes out of such a state, at whatever index of whatever
  chunk. Each state the loop really passes through while chunks arrive is among them.
\<close>

inductive reachable :: "env \<Rightarrow> edit \<Rightarrow> bool" for e :: env where
  fresh: "reachable e (initial e)"
| pass: "reachable e s \<Longrightarrow> i < length input \<Longrightarrow> loop_body e input i s = Next i' s'
         \<Longrightarrow> reachable e s'"

text \<open>
  The environment of the shipped program: the prompt built by \<open>getUserPrompt\<close> in
  \<open>ui.js\<close> (bright, cyan, \<open>You:\<close>, reset, a space), a terminal that was not in raw
  mode, and \<open>SELF_DESTRUCT: true\<close> of the configuration file.
\<close>

definition getUserPrompt :: js_string where
  "getUserPrompt = [27, 91, 49, 109] @ [27, 91, 51, 54, 109] @ str ''You:'' @ [27, 91, 48, 109] @ [32]"

definition brahma :: env where
  "brahma = \<lparr>userPrompt = getUserPrompt, originalRawMode = False, SELF_DESTRUCT = True\<rparr>"

section \<open>The menu of \<open>startFileModeInteractive\<close>\<close>

record menu_option =
  key :: js_string
  label :: string
  description :: string

definition options :: "menu_option list" where
  "options =
     [\<lparr>key = str ''1'', label = ''Process Input'',
       description = ''Send input.txt content to AI''\<rparr>,
      \<lparr>key = str ''2'', label = ''Exit Brahma'', description = ''Close the application''\<rparr>]"

text \<open>
  \<open>selectedIndex\<close> lives outside the menu loop and keeps its value from one
  appearance of the menu to the next.
\<close>

record menu =
  selectedIndex :: int
  menu_trace :: "effect list"

datatype menu_outcome =
    Menu_listening menu
  | Menu_resolved js_string menu
  | Menu_type_error menu

definition menu_emit :: "effect list \<Rightarrow> menu \<Rightarrow> menu" where
  "menu_emit es m = m\<lparr>menu_trace := menu_trace m @ es\<rparr>"

text \<open>The three statements in front of every \<open>resolve\<close> of the key handler.\<close>

definition release :: "menu \<Rightarrow> menu" where
  "release m = menu_emit [Set_raw_mode False, Stdin_pause, Remove_data_listener] m"

definition displayMenu :: "menu \<Rightarrow> menu" where
  "displayMenu m = menu_emit [Display_menu (selectedIndex m)] m"

text \<open>
  \<open>onKeyPress\<close> compares the whole chunk (the parameter the source calls \<open>key\<close>)
  with the key strings. \<open>options[selectedIndex].key\<close> throws a TypeError when the index
  is outside the list.
\<close>

definition onKeyPress :: "menu_option list \<Rightarrow> js_string \<Rightarrow> menu \<Rightarrow> menu_outcome" where
  "onKeyPress opts pressed m =
     (if pressed = [3] then
        Menu_resolved (str ''exit'') (menu_emit [Promise_resolve (str ''exit'')] (release m))
      else if pressed = [27, 91, 65] then
        Menu_listening (displayMenu (m\<lparr>selectedIndex :=
          (if selectedIndex m > 0 then selectedIndex m - 1 else int (length opts) - 1)\<rparr>))
      else if pressed = [27, 91, 66] then
        Menu_listening (displayMenu (m\<lparr>selectedIndex :=
          (if selectedIndex m < int (length opts) - 1 then selectedIndex m + 1 else 0)\<rparr>))
      else if pressed = [13] \<or> pressed = [10] then
        (if 0 \<le> selectedIndex m \<and> selectedIndex m < int (length opts)
         then Menu_resolved (key (opts ! nat (selectedIndex m)))
                (menu_emit [Promise_resolve (key (opts ! nat (selectedIndex m)))] (release m))
         else Menu_type_error (release m))
      else if js_le (str ''1'') pressed \<and> js_le pressed (decimal (length opts)) then
        Menu_resolved pressed (menu_emit [Promise_resolve pressed] (release m))
      else Menu_listening m)"

fun menu_feed :: "menu_option list \<Rightarrow> menu \<Rightarrow> js_string list \<Rightarrow> menu_outcome" where
  "menu_feed opts m [] = Menu_listening m"
| "menu_feed opts m (pressed # rest) =
     (case onKeyPress opts pressed m of
        Menu_listening m' \<Rightarrow> menu_feed opts m' rest
      | r \<Rightarrow> r)"

text \<open>
  One appearance of the menu: it is displayed, the terminal is put into raw mode and the
  handler is installed.
\<close>

definition awaitChoice :: "menu_option list \<Rightarrow> menu \<Rightarrow> js_string list \<Rightarrow> menu_outcome" where
  "awaitChoice opts m chunks =
     menu_feed opts
       (menu_emit [Set_raw_mode True, Stdin_resume, Stdin_set_encoding ''utf8''] (displayMenu m))
       chunks"

definition first_menu :: menu where
  "first_menu = \<lparr>selectedIndex = 0, menu_trace = []\<rparr>"

fun choice :: "menu_outcome \<Rightarrow> js_string option" where
  "choice (Menu_resolved v m) = Some v"
| "choice (Menu_listening m) = None"
| "choice (Menu_type_error m) = None"

fun selected :: "menu_outcome \<Rightarrow> int" where
  "selected (Menu_listening m) = selectedIndex m"
| "selected (Menu_resolved v m) = selectedIndex m"
| "selected (Menu_type_error m) = selectedIndex m"

text \<open>The two arrow keys as the terminal sends them.\<close>

definition arrow_up :: js_string where
  "arrow_up = [27, 91, 65]"

definition arrow_down :: js_string where
  "arrow_down = [27, 91, 66]"

section \<open>The loop, one pass at a time\<close>

lemma onData_loop_end: "\<not> i < length input \<Longrightarrow> onData_loop e input i s = Listening s"
  by (subst onData_loop.simps) simp

lemma onData_loop_next:
  "i < length input \<Longrightarrow> loop_body e input i s = Next i' s' \<Longrightarrow>
   onData_loop e input i s = onData_loop e input i' s'"
  by (subst onData_loop.simps) simp

lemma onData_loop_done:
  "i < length input \<Longrightarrow> loop_body e input i s = Done r \<Longrightarrow> onData_loop e input i s = r"
  by (subst onData_loop.simps) simp

lemma slice_take: "0 \<le> k \<Longrightarrow> slice s 0 k = take (nat k) s"
  by (auto simp: slice_def Let_def min_def)

lemma slice_from_drop: "0 \<le> k \<Longrightarrow> slice_from s k = drop (nat k) s"
  by (auto simp: slice_from_def slice_def Let_def min_def)

lemma move_back_buffer:
  "inputBuffer (move_back s) = inputBuffer s \<and> currentLine (move_back s) = currentLine s
   \<and> cursorPos (move_back s) = cursorPos s"
  by (simp add: move_back_def emit_def Let_def)

lemma printable_at_end:
  "cursorPos s = int (length (currentLine s)) \<Longrightarrow>
   printable c s = s\<lparr>currentLine := currentLine s @ [c], cursorPos := cursorPos s + 1,
                     trace := trace s @ [Stdout_write [c]]\<rparr>"
  by (simp add: printable_def Let_def slice_take slice_from_drop move_back_def emit_def)

lemma backspace_at_zero: "cursorPos s = 0 \<Longrightarrow> backspace s = s"
  by (simp add: backspace_def)

lemma cursor_in_line_printable: "cursor_in_line s \<Longrightarrow> cursor_in_line (printable c s)"
  unfolding cursor_in_line_def
  by (auto simp: printable_def Let_def move_back_buffer emit_def slice_take slice_from_drop)

lemma cursor_in_line_backspace: "cursor_in_line s \<Longrightarrow> cursor_in_line (backspace s)"
  unfolding cursor_in_line_def
  by (auto simp: backspace_def Let_def move_back_buffer emit_def slice_take slice_from_drop)

lemma cursor_in_line_line_feed: "cursor_in_line (line_feed s)"
  by (simp add: line_feed_def cursor_in_line_def emit_def)

lemma cursor_in_line_arrow_key: "cursor_in_line s \<Longrightarrow> cursor_in_line (arrow_key k s)"
  unfolding cursor_in_line_def by (auto simp: arrow_key_def emit_def)

lemma cursor_in_line_enter:
  "enter e input i s = Next i' s' \<Longrightarrow> cursor_in_line s'"
  by (auto simp: enter_def Let_def cursor_in_line_def emit_def split: if_splits)

lemma cursor_in_line_escape:
  "cursor_in_line s \<Longrightarrow> escape input i s = Next i' s' \<Longrightarrow> cursor_in_line s'"
  by (auto simp: escape_def cursor_in_line_arrow_key split: if_splits)

lemma cursor_in_line_loop_body:
  "cursor_in_line s \<Longrightarrow> loop_body e input i s = Next i' s' \<Longrightarrow> cursor_in_line s'"
  by (auto simp: loop_body_def Let_def cursor_in_line_printable cursor_in_line_backspace
      cursor_in_line_line_feed split: if_splits
      dest: cursor_in_line_enter cursor_in_line_escape)

lemma reachable_cursor_in_line: "reachable e s \<Longrightarrow> cursor_in_line s"
proof (induction rule: reachable.induct)
  case fresh
  show ?case by (simp add: initial_def cursor_in_line_def)
next
  case (pass s i input i' s')
  then show ?case by (blast intro: cursor_in_line_loop_body)
qed

lemma arrow_left_clamped:
  "cursor_in_line s \<Longrightarrow>
   cursorPos (arrow_key 68 s) = max 0 (cursorPos s - 1)
   \<and> currentLine (arrow_key 68 s) = currentLine s \<and> inputBuffer (arrow_key 68 s) = inputBuffer s"
  by (auto simp: arrow_key_def emit_def cursor_in_line_def)

lemma arrow_right_clamped:
  "cursor_in_line s \<Longrightarrow>
   cursorPos (arrow_key 67 s) = min (int (length (currentLine s))) (cursorPos s + 1)
   \<and> currentLine (arrow_key 67 s) = currentLine s \<and> inputBuffer (arrow_key 67 s) = inputBuffer s"
  by (auto simp: arrow_key_def emit_def cursor_in_line_def)

lemma loop_body_arrow:
  "i + 2 < length input \<Longrightarrow> input ! i = 27 \<Longrightarrow> input ! (i + 1) = 91 \<Longrightarrow>
   loop_body e input i s = Next (i + 3) (arrow_key (input ! (i + 2)) s)"
  by (simp add: loop_body_def escape_def)

lemma loop_body_done: "loop_body e input i s = Done r \<Longrightarrow> r \<noteq> Listening s'"
  by (auto simp: loop_body_def enter_def escape_def Let_def split: if_splits)

lemma onData_loop_reachable:
  "reachable e s \<Longrightarrow> onData_loop e input i s = Listening s' \<Longrightarrow> reachable e s'"
proof (induction e input i s rule: onData_loop.induct)
  case (1 e input i s)
  show ?case
  proof (cases "i < length input")
    case False
    with "1.prems" show ?thesis by (simp add: onData_loop_end)
  next
    case True
    show ?thesis
    proof (cases "loop_body e input i s")
      case (Next j t)
      have "reachable e t" using "1.prems"(1) True Next by (rule reachable.pass)
      moreover have "onData_loop e input j t = Listening s'"
        using "1.prems"(2) onData_loop_next [OF True Next] by simp
      ultimately show ?thesis using "1.IH" [OF True Next] by blast
    next
      case (Done r)
      with "1.prems"(2) True show ?thesis
        by (auto simp: onData_loop_done dest: loop_body_done)
    qed
  qed
qed

lemma feed_reachable:
  "reachable e s \<Longrightarrow> feed e s chunks = Listening s' \<Longrightarrow> reachable e s'"
proof (induction chunks arbitrary: s)
  case Nil
  then show ?case by simp
next
  case (Cons chunk chunks)
  then show ?case
    by (auto simp: onData_def split: outcome.splits dest: onData_loop_reachable)
qed

lemma getMultiLineInput_reachable:
  "getMultiLineInput e chunks = Listening s \<Longrightarrow> reachable e s"
  unfolding getMultiLineInput_def by (rule feed_reachable [OF reachable.fresh])

text \<open>
  Claim C4. In every state the editor reaches from a fresh buffer the cursor satisfies
  \<open>0 \<le> cursorPos \<le> currentLine.length\<close>. In such a state the left arrow
  (\<open>ESC [ D\<close>) moves the cursor to \<open>max 0 (cursorPos - 1)\<close> and the right arrow
  (\<open>ESC [ C\<close>) to \<open>min currentLine.length (cursorPos + 1)\<close>, and neither changes
  the text. Every pass of the loop body that goes on (insert, backspace, line feed,
  absorbed Enter, arrow, dropped escape) leaves the cursor inside its line again.
\<close>

theorem C4:
  assumes "reachable e s"
  shows "(0 \<le> cursorPos s \<and> cursorPos s \<le> int (length (currentLine s)))
    \<and> (\<forall>input i. i + 2 < length input \<and> input ! i = 27 \<and> input ! (i + 1) = 91
           \<and> input ! (i + 2) = 68 \<longrightarrow>
         (\<exists>s'. loop_body e input i s = Next (i + 3) s' \<and> cursorPos s' = max 0 (cursorPos s - 1)
            \<and> currentLine s' = currentLine s \<and> inputBuffer s' = inputBuffer s))
    \<and> (\<forall>input i. i + 2 < length input \<and> input ! i = 27 \<and> input ! (i + 1) = 91
           \<and> input ! (i + 2) = 67 \<longrightarrow>
         (\<exists>s'. loop_body e input i s = Next (i + 3) s'
            \<and> cursorPos s' = min (int (length (currentLine s))) (cursorPos s + 1)
            \<and> currentLine s' = currentLine s \<and> inputBuffer s' = inputBuffer s))
    \<and> (\<forall>input i i' s'. i < length input \<and> loop_body e input i s = Next i' s' \<longrightarrow>
         0 \<le> cursorPos s' \<and> cursorPos s' \<le> int (length (currentLine s')))"
proof -
  have inv: "cursor_in_line s" using assms by (rule reachable_cursor_in_line)
  have kept: "0 \<le> cursorPos s' \<and> cursorPos s' \<le> int (length (currentLine s'))"
    if "i < length input \<and> loop_body e input i s = Next i' s'" for input i i' s'
    using cursor_in_line_loop_body [OF inv, of e input i i' s'] that
    by (simp add: cursor_in_line_def)
  have bound: "0 \<le> cursorPos s \<and> cursorPos s \<le> int (length (currentLine s))"
    using inv by (simp add: cursor_in_line_def)
  have left: "\<exists>s'. loop_body e input i s = Next (i + 3) s' \<and> cursorPos s' = max 0 (cursorPos s - 1)
            \<and> currentLine s' = currentLine s \<and> inputBuffer s' = inputBuffer s"
    if "i + 2 < length input \<and> input ! i = 27 \<and> input ! (i + 1) = 91 \<and> input ! (i + 2) = 68"
    for input i
    using arrow_left_clamped [OF inv] that by (simp add: loop_body_arrow)
  have right: "\<exists>s'. loop_body e input i s = Next (i + 3) s'
            \<and> cursorPos s' = min (int (length (currentLine s))) (cursorPos s + 1)
            \<and> currentLine s' = currentLine s \<and> inputBuffer s' = inputBuffer s"
    if "i + 2 < length input \<and> input ! i = 27 \<and> input ! (i + 1) = 91 \<and> input ! (i + 2) = 67"
    for input i
    using arrow_right_clamped [OF inv] that by (simp add: loop_body_arrow)
  from bound left right kept show ?thesis by blast
qed

lemmas eval_defs = getMultiLineInput_def initial_def onData_def onData_loop.simps loop_body_def
  enter_def escape_def arrow_key_def printable_def backspace_def move_back_def line_feed_def
  ctrl_c_def cleanup_def emit_def append_line_def trim_def is_whitespace_def slice_def slice_from_def
  str_def Let_def brahma_def getUserPrompt_def decimal.simps

text \<open>
  The state after typing \<open>ab\<close> and pressing the left arrow once is reachable, and its
  cursor, at column 1, is inside the line; a second left arrow moves it to column 0.
\<close>

theorem C4_witness:
  "reachable brahma
     \<lparr>inputBuffer = [], currentLine = [97, 98], cursorPos = 1,
      trace = [Set_raw_mode True, Stdin_resume, Stdout_write getUserPrompt, Stdout_write [97],
               Stdout_write [98], Stdout_write [27, 91, 68]]\<rparr>
   \<and> (0::int) \<le> 1 \<and> (1::int) \<le> int (length [97::nat, 98])
   \<and> (\<exists>s'. loop_body brahma [27, 91, 68] 0
          \<lparr>inputBuffer = [], currentLine = [97, 98], cursorPos = 1,
           trace = [Set_raw_mode True, Stdin_resume, Stdout_write getUserPrompt,
                    Stdout_write [97], Stdout_write [98], Stdout_write [27, 91, 68]]\<rparr>
          = Next 3 s' \<and> cursorPos s' = 0 \<and> currentLine s' = [97, 98])"
proof -
  have run: "getMultiLineInput brahma [[97, 98], [27, 91, 68]] =
      Listening \<lparr>inputBuffer = [], currentLine = [97, 98], cursorPos = 1,
      trace = [Set_raw_mode True, Stdin_resume, Stdout_write getUserPrompt, Stdout_write [97],
               Stdout_write [98], Stdout_write [27, 91, 68]]\<rparr>"
    by (simp add: eval_defs)
  have r: "reachable brahma
     \<lparr>inputBuffer = [], currentLine = [97, 98], cursorPos = 1,
      trace = [Set_raw_mode True, Stdin_resume, Stdout_write getUserPrompt, Stdout_write [97],
               Stdout_write [98], Stdout_write [27, 91, 68]]\<rparr>"
    using run by (rule getMultiLineInput_reachable)
  have "\<exists>s'. loop_body brahma [27, 91, 68] 0
          \<lparr>inputBuffer = [], currentLine = [97, 98], cursorPos = 1,
           trace = [Set_raw_mode True, Stdin_resume, Stdout_write getUserPrompt,
                    Stdout_write [97], Stdout_write [98], Stdout_write [27, 91, 68]]\<rparr>
          = Next 3 s' \<and> cursorPos s' = 0 \<and> currentLine s' = [97, 98]"
    using C4 [OF r, THEN conjunct2, THEN conjunct1, rule_format,
        where input = "[27, 91, 68]" and i = 0]
    by auto
  then show ?thesis using r by simp
qed

lemma loop_body_backspace:
  "input ! i = 8 \<or> input ! i = 127 \<Longrightarrow> loop_body e input i s = Next (i + 1) (backspace s)"
  by (auto simp: loop_body_def)

lemma backspace_take_drop:
  assumes "0 < cursorPos s" "cursorPos s \<le> int (length (currentLine s))"
  shows "currentLine (backspace s)
           = take (nat (cursorPos s) - 1) (currentLine s) @ drop (nat (cursorPos s)) (currentLine s)"
    and "cursorPos (backspace s) = cursorPos s - 1"
    and "inputBuffer (backspace s) = inputBuffer s"
proof -
  have pos: "0 < length (currentLine s)" using assms by auto
  have n: "nat (cursorPos s - 1) = nat (cursorPos s) - 1" using assms by simp
  show "currentLine (backspace s)
           = take (nat (cursorPos s) - 1) (currentLine s) @ drop (nat (cursorPos s)) (currentLine s)"
    using assms pos by (simp add: backspace_def Let_def slice_take slice_from_drop move_back_buffer emit_def n)
  show "cursorPos (backspace s) = cursorPos s - 1"
    using assms pos by (simp add: backspace_def Let_def move_back_buffer emit_def)
  show "inputBuffer (backspace s) = inputBuffer s"
    using assms pos by (simp add: backspace_def Let_def move_back_buffer emit_def)
qed

lemma line_around_cursor:
  assumes "0 < cursorPos s" "cursorPos s \<le> int (length (currentLine s))"
  shows "currentLine s = take (nat (cursorPos s) - 1) (currentLine s)
           @ [currentLine s ! (nat (cursorPos s) - 1)] @ drop (nat (cursorPos s)) (currentLine s)"
proof -
  have "nat (cursorPos s) - 1 < length (currentLine s)" using assms by linarith
  then have "currentLine s = take (nat (cursorPos s) - 1) (currentLine s)
           @ currentLine s ! (nat (cursorPos s) - 1) # drop (Suc (nat (cursorPos s) - 1)) (currentLine s)"
    by (rule id_take_nth_drop)
  moreover have "Suc (nat (cursorPos s) - 1) = nat (cursorPos s)" using assms by simp
  ultimately show ?thesis by simp
qed

text \<open>
  Claim C5. At a Backspace byte (8 or 127), with the cursor inside the line and to the
  right of column 0, the loop body removes exactly the code unit at index
  \<open>cursorPos - 1\<close> of the current line, the one just before the cursor, and moves
  the cursor one to the left; \<open>inputBuffer\<close> is not touched. With the cursor at
  column 0 the state is returned as it was: text, committed lines, cursor and
  terminal output are unchanged, and nothing of the previous line is merged.
\<close>

theorem C5:
  assumes "i < length input" and "input ! i = 8 \<or> input ! i = 127"
  shows "(0 < cursorPos s \<and> cursorPos s \<le> int (length (currentLine s)) \<longrightarrow>
            (\<exists>s'. loop_body e input i s = Next (i + 1) s'
               \<and> currentLine s = take (nat (cursorPos s) - 1) (currentLine s)
                    @ [currentLine s ! (nat (cursorPos s) - 1)]
                    @ drop (nat (cursorPos s)) (currentLine s)
               \<and> currentLine s' = take (nat (cursorPos s) - 1) (currentLine s)
                    @ drop (nat (cursorPos s)) (currentLine s)
               \<and> cursorPos s' = cursorPos s - 1
               \<and> inputBuffer s' = inputBuffer s))
       \<and> (cursorPos s = 0 \<longrightarrow> loop_body e input i s = Next (i + 1) s)"
proof (intro conjI impI)
  assume c: "0 < cursorPos s \<and> cursorPos s \<le> int (length (currentLine s))"
  then have c1: "0 < cursorPos s" and c2: "cursorPos s \<le> int (length (currentLine s))"
    by simp_all
  show "\<exists>s'. loop_body e input i s = Next (i + 1) s'
               \<and> currentLine s = take (nat (cursorPos s) - 1) (currentLine s)
                    @ [currentLine s ! (nat (cursorPos s) - 1)]
                    @ drop (nat (cursorPos s)) (currentLine s)
               \<and> currentLine s' = take (nat (cursorPos s) - 1) (currentLine s)
                    @ drop (nat (cursorPos s)) (currentLine s)
               \<and> cursorPos s' = cursorPos s - 1
               \<and> inputBuffer s' = inputBuffer s"
    using loop_body_backspace [OF assms(2)] backspace_take_drop [OF c1 c2]
      line_around_cursor [OF c1 c2] by blast
next
  assume "cursorPos s = 0"
  then show "loop_body e input i s = Next (i + 1) s"
    using loop_body_backspace [OF assms(2)] by (simp add: backspace_at_zero)
qed

text \<open>
  Backspace after \<open>Hi\<close> with the cursor at column 2 leaves \<open>H\<close>; Backspace at
  column 0 of a second line leaves the first line \<open>H\<close> and the second line alone.
\<close>

theorem C5_witness:
  "(1::nat) < length [72::nat, 105, 127] \<and> ([72::nat, 105, 127] ! 2 = 8 \<or> [72::nat, 105, 127] ! 2 = 127)
   \<and> (\<exists>s'. loop_body brahma [72, 105, 127] 2
              \<lparr>inputBuffer = [], currentLine = [72, 105], cursorPos = 2, trace = []\<rparr> = Next 3 s'
          \<and> currentLine s' = [72] \<and> cursorPos s' = 1 \<and> inputBuffer s' = [])
   \<and> loop_body brahma [72, 105, 127] 2
              \<lparr>inputBuffer = [72], currentLine = [105], cursorPos = 0, trace = []\<rparr>
        = Next 3 \<lparr>inputBuffer = [72], currentLine = [105], cursorPos = 0, trace = []\<rparr>"
  using C5 [of 2 "[72, 105, 127]" "\<lparr>inputBuffer = [], currentLine = [72, 105], cursorPos = 2, trace = []\<rparr>" brahma]
    C5 [of 2 "[72, 105, 127]" "\<lparr>inputBuffer = [72], currentLine = [105], cursorPos = 0, trace = []\<rparr>" brahma]
  by simp

lemma loop_body_printable:
  "32 \<le> input ! i \<Longrightarrow> input ! i \<le> 126 \<Longrightarrow>
   loop_body e input i s = Next (i + 1) (printable (input ! i) s)"
  by (auto simp: loop_body_def)

lemma printable_run:
  "\<forall>c\<in>set (drop i input). 32 \<le> c \<and> c \<le> 126 \<Longrightarrow> cursorPos s = int (length (currentLine s)) \<Longrightarrow>
   onData_loop e input i s =
     Listening (s\<lparr>currentLine := currentLine s @ drop i input,
                  cursorPos := int (length (currentLine s @ drop i input)),
                  trace := trace s @ map (\<lambda>c. Stdout_write [c]) (drop i input)\<rparr>)"
proof (induction e input i s rule: onData_loop.induct)
  case (1 e input i s)
  show ?case
  proof (cases "i < length input")
    case False
    then show ?thesis using "1.prems" by (simp add: onData_loop_end)
  next
    case True
    then have d: "drop i input = input ! i # drop (Suc i) input"
      by (simp add: Cons_nth_drop_Suc)
    with "1.prems"(1) have p: "32 \<le> input ! i" "input ! i \<le> 126"
      and rest: "\<forall>c\<in>set (drop (i + 1) input). 32 \<le> c \<and> c \<le> 126"
      by simp_all
    let ?t = "printable (input ! i) s"
    have body: "loop_body e input i s = Next (i + 1) ?t" using p by (rule loop_body_printable)
    have t: "?t = s\<lparr>currentLine := currentLine s @ [input ! i], cursorPos := cursorPos s + 1,
                     trace := trace s @ [Stdout_write [input ! i]]\<rparr>"
      using "1.prems"(2) by (rule printable_at_end)
    have at_end: "cursorPos ?t = int (length (currentLine ?t))"
      using "1.prems"(2) by (simp add: t)
    have "onData_loop e input i s = onData_loop e input (i + 1) ?t"
      using True body by (rule onData_loop_next)
    also have "\<dots> = Listening (?t\<lparr>currentLine := currentLine ?t @ drop (i + 1) input,
                  cursorPos := int (length (currentLine ?t @ drop (i + 1) input)),
                  trace := trace ?t @ map (\<lambda>c. Stdout_write [c]) (drop (i + 1) input)\<rparr>)"
      using "1.IH" [OF True body rest at_end] .
    also have "\<dots> = Listening (s\<lparr>currentLine := currentLine s @ drop i input,
                  cursorPos := int (length (currentLine s @ drop i input)),
                  trace := trace s @ map (\<lambda>c. Stdout_write [c]) (drop i input)\<rparr>)"
      by (simp add: t d)
    finally show ?thesis .
  qed
qed

lemma printable_feed:
  "\<forall>chunk\<in>set chunks. \<forall>c\<in>set chunk. 32 \<le> c \<and> c \<le> 126 \<Longrightarrow>
   cursorPos s = int (length (currentLine s)) \<Longrightarrow>
   feed e s chunks =
     Listening (s\<lparr>currentLine := currentLine s @ concat chunks,
                  cursorPos := int (length (currentLine s @ concat chunks)),
                  trace := trace s @ map (\<lambda>c. Stdout_write [c]) (concat chunks)\<rparr>)"
proof (induction chunks arbitrary: s)
  case Nil
  then show ?case by simp
next
  case (Cons chunk chunks)
  have "\<forall>c\<in>set (drop 0 chunk). 32 \<le> c \<and> c \<le> 126" using Cons.prems(1) by simp
  then have step: "onData e chunk s = Listening (s\<lparr>currentLine := currentLine s @ chunk,
                  cursorPos := int (length (currentLine s @ chunk)),
                  trace := trace s @ map (\<lambda>c. Stdout_write [c]) chunk\<rparr>)"
    using printable_run [of 0 chunk s e] Cons.prems(2) by (simp add: onData_def)
  show ?case using Cons.prems(1) by (simp add: step Cons.IH)
qed

text \<open>
  Claim C9. If every code unit of every chunk is printable (32 to 126), then after
  the chunks the current line is their concatenation in input order, the cursor is
  at the end of the line, nothing is committed, and each character is echoed once.
\<close>

theorem C9:
  assumes "\<forall>chunk\<in>set chunks. \<forall>c\<in>set chunk. 32 \<le> c \<and> c \<le> 126"
  shows "getMultiLineInput e chunks =
     Listening \<lparr>inputBuffer = [], currentLine = concat chunks,
                cursorPos = int (length (concat chunks)),
                trace = trace (initial e) @ map (\<lambda>c. Stdout_write [c]) (concat chunks)\<rparr>"
  using printable_feed [OF assms, of "initial e" e]
  by (simp add: getMultiLineInput_def initial_def)

text \<open>Typing \<open>Hi\<close> and then \<open>!\<close> gives the line \<open>Hi!\<close> with the cursor at column 3.\<close>

theorem C9_witness:
  "list_all (list_all (\<lambda>c. 32 \<le> c \<and> c \<le> 126)) [[72, 105], [33::nat]]
   \<and> getMultiLineInput brahma [[72, 105], [33]] =
     Listening \<lparr>inputBuffer = [], currentLine = [72, 105, 33], cursorPos = 3,
                trace = [Set_raw_mode True, Stdin_resume, Stdout_write getUserPrompt,
                         Stdout_write [72], Stdout_write [105], Stdout_write [33]]\<rparr>"
  using C9 [of "[[72, 105], [33]]" brahma]
  by (simp add: initial_def brahma_def)

lemma trim_Nil_iff: "trim s = [] \<longleftrightarrow> (\<forall>c\<in>set s. is_whitespace c)"
proof
  assume "trim s = []"
  then have "\<forall>c\<in>set (dropWhile is_whitespace s). is_whitespace c"
    by (simp add: trim_def dropWhile_eq_Nil_conv)
  then have "dropWhile is_whitespace s = []"
    using hd_dropWhile [of is_whitespace s] hd_in_set [of "dropWhile is_whitespace s"] by blast
  then show "\<forall>c\<in>set s. is_whitespace c" by (simp add: dropWhile_eq_Nil_conv)
next
  assume "\<forall>c\<in>set s. is_whitespace c"
  then show "trim s = []" by (auto simp: trim_def dest: set_dropWhileD)
qed

lemma strip_end_keeps_head:
  "\<not> P x \<Longrightarrow> \<exists>ys. rev (dropWhile P (rev (x # xs))) = x # ys"
  by (auto simp: dropWhile_append intro: exI [of _ "rev (dropWhile P (rev xs))"])

lemma trim_cases:
  obtains "trim s = []" | x ys where "trim s = x # ys" "\<not> is_whitespace x"
    "\<not> is_whitespace (last (x # ys))"
proof (cases "dropWhile is_whitespace s")
  case Nil
  have "trim s = []" unfolding trim_def Nil by simp
  then show ?thesis by (rule that(1))
next
  case (Cons x xs)
  then have nx: "\<not> is_whitespace x"
    using hd_dropWhile [of is_whitespace s] by simp
  then obtain ys where t: "trim s = x # ys"
    using strip_end_keeps_head [of is_whitespace x xs] by (auto simp: trim_def Cons)
  have ne: "dropWhile is_whitespace (rev (x # xs)) \<noteq> []"
    using t by (simp add: trim_def Cons)
  have "last (trim s) = hd (dropWhile is_whitespace (rev (x # xs)))"
    using ne by (simp add: trim_def Cons last_rev)
  then have "\<not> is_whitespace (last (x # ys))"
    using hd_dropWhile [OF ne] t by simp
  with t nx show ?thesis by (rule that(2))
qed

lemma trim_fixed:
  assumes "\<not> is_whitespace x" "\<not> is_whitespace (last (x # ys))"
  shows "trim (x # ys) = x # ys"
proof -
  have "rev (x # ys) \<noteq> []" by simp
  moreover have "hd (rev (x # ys)) = last (x # ys)" by (simp add: hd_rev)
  ultimately have "dropWhile is_whitespace (rev (x # ys)) = rev (x # ys)"
    using assms(2) by (cases "rev (x # ys)") auto
  then show ?thesis using assms(1) by (simp add: trim_def)
qed

lemma trim_idem: "trim (trim s) = trim s"
proof (rule trim_cases [of s])
  assume e: "trim s = []"
  have "trim [] = []" by (simp add: trim_def)
  with e show ?thesis by simp
next
  fix x ys
  assume "trim s = x # ys" "\<not> is_whitespace x" "\<not> is_whitespace (last (x # ys))"
  then show ?thesis using trim_fixed [of x ys] by simp
qed

lemma enter_resolved:
  "enter e input i s = Done (Resolved v s') \<Longrightarrow> \<exists>x. v = trim x \<and> trim x \<noteq> []"
  by (auto simp: enter_def Let_def split: if_splits)

lemma loop_body_resolved:
  "loop_body e input i s = Done (Resolved v s') \<Longrightarrow> \<exists>x. v = trim x \<and> trim x \<noteq> []"
  by (auto simp: loop_body_def escape_def Let_def split: if_splits dest: enter_resolved)

lemma onData_loop_resolved:
  "onData_loop e input i s = Resolved v s' \<Longrightarrow> \<exists>x. v = trim x \<and> trim x \<noteq> []"
proof (induction e input i s rule: onData_loop.induct)
  case (1 e input i s)
  show ?case
  proof (cases "i < length input")
    case False
    with "1.prems" show ?thesis by (simp add: onData_loop_end)
  next
    case True
    show ?thesis
    proof (cases "loop_body e input i s")
      case (Next j t)
      then show ?thesis using "1.IH" [OF True Next] "1.prems" onData_loop_next [OF True Next]
        by simp
    next
      case (Done r)
      then show ?thesis using "1.prems" onData_loop_done [OF True Done]
        by (auto dest: loop_body_resolved)
    qed
  qed
qed

lemma feed_resolved:
  "feed e s chunks = Resolved v s' \<Longrightarrow> \<exists>x. v = trim x \<and> trim x \<noteq> []"
proof (induction chunks arbitrary: s)
  case Nil
  then show ?case by simp
next
  case (Cons chunk chunks)
  then show ?case
    by (auto simp: onData_def split: outcome.splits dest: onData_loop_resolved)
qed

text \<open>
  Claim C10. Whatever the chunks are, a value that \<open>getMultiLineInput\<close> resolves with
  is not empty, contains a code unit that is not whitespace, and is its own trim: its
  first and its last code unit are not whitespace.
\<close>

theorem C10:
  assumes "getMultiLineInput e chunks = Resolved v s"
  shows "v \<noteq> [] \<and> (\<exists>c\<in>set v. \<not> is_whitespace c) \<and> trim v = v
         \<and> \<not> is_whitespace (hd v) \<and> \<not> is_whitespace (last v)"
proof -
  obtain x where v: "v = trim x" and ne: "trim x \<noteq> []"
    using assms feed_resolved unfolding getMultiLineInput_def by blast
  from ne obtain y ys where t: "trim x = y # ys" and y: "\<not> is_whitespace y"
    and l: "\<not> is_whitespace (last (y # ys))"
    by - (rule trim_cases [of x], auto)
  have "trim v = v" by (simp add: v trim_idem)
  moreover have "\<exists>c\<in>set v. \<not> is_whitespace c" using t y v by auto
  ultimately show ?thesis using t y l v by simp
qed

text \<open>The chunk \<open>" Hi "\<close> followed by CR resolves with \<open>Hi\<close>.\<close>

theorem C10_witness:
  "getMultiLineInput brahma [[32, 72, 105, 32, 13]] =
     Resolved [72, 105]
       \<lparr>inputBuffer = [32, 72, 105, 32], currentLine = [32, 72, 105, 32], cursorPos = 4,
        trace = [Set_raw_mode True, Stdin_resume, Stdout_write getUserPrompt,
                 Stdout_write [32], Stdout_write [72], Stdout_write [105], Stdout_write [32],
                 Set_raw_mode False, Remove_data_listener, Stdout_write [10],
                 Promise_resolve [72, 105]]\<rparr>
   \<and> [72, 105] \<noteq> ([]::nat list) \<and> (\<exists>c\<in>set [72, 105]. \<not> is_whitespace c)
   \<and> trim [72, 105] = [72, 105]"
proof -
  have run: "getMultiLineInput brahma [[32, 72, 105, 32, 13]] =
     Resolved [72, 105]
       \<lparr>inputBuffer = [32, 72, 105, 32], currentLine = [32, 72, 105, 32], cursorPos = 4,
        trace = [Set_raw_mode True, Stdin_resume, Stdout_write getUserPrompt,
                 Stdout_write [32], Stdout_write [72], Stdout_write [105], Stdout_write [32],
                 Set_raw_mode False, Remove_data_listener, Stdout_write [10],
                 Promise_resolve [72, 105]]\<rparr>"
    by (simp add: eval_defs)
  show ?thesis using run C10 [OF run] by simp
qed

lemma is_whitespace_10: "is_whitespace 10"
  by (simp add: is_whitespace_def)

lemma loop_body_enter: "input ! i = 13 \<Longrightarrow> loop_body e input i s = enter e input i s"
  by (simp add: loop_body_def)

lemma enter_resolves:
  assumes "(\<exists>c\<in>set (currentLine s). \<not> is_whitespace c) \<or> (\<exists>c\<in>set (inputBuffer s). \<not> is_whitespace c)"
  shows "enter e input i s =
     Done (Resolved (trim (append_line (inputBuffer s) (currentLine s)))
       (s\<lparr>inputBuffer := append_line (inputBuffer s) (currentLine s),
          trace := trace s @ [Set_raw_mode (originalRawMode e), Remove_data_listener,
                              Stdout_write [10],
                              Promise_resolve (trim (append_line (inputBuffer s) (currentLine s)))]\<rparr>))"
proof -
  have c: "trim (currentLine s) \<noteq> [] \<or> inputBuffer s \<noteq> []"
    using assms by (auto simp: trim_Nil_iff)
  have "\<exists>c\<in>set (append_line (inputBuffer s) (currentLine s)). \<not> is_whitespace c"
    using assms by (auto simp: append_line_def)
  then have "trim (append_line (inputBuffer s) (currentLine s)) \<noteq> []"
    by (simp add: trim_Nil_iff)
  then show ?thesis using c by (simp add: enter_def Let_def cleanup_def emit_def)
qed

lemma enter_absorbed:
  assumes "\<forall>c\<in>set (currentLine s). is_whitespace c" "\<forall>c\<in>set (inputBuffer s). is_whitespace c"
  shows "enter e input i s =
     Next (if i + 1 < length input \<and> input ! (i + 1) = 10 then i + 2 else i + 1)
       (s\<lparr>inputBuffer := (if inputBuffer s = [] then [] else inputBuffer s @ [10] @ currentLine s),
          currentLine := [], cursorPos := 0,
          trace := trace s @ [Stdout_write ([10] @ userPrompt e)]\<rparr>)"
proof (cases "inputBuffer s = []")
  case True
  have "trim (currentLine s) = []" using assms(1) by (simp add: trim_Nil_iff)
  moreover have "trim [] = []" by (simp add: trim_def)
  ultimately show ?thesis using True by (simp add: enter_def Let_def emit_def)
next
  case False
  have "\<forall>c\<in>set (inputBuffer s @ [10] @ currentLine s). is_whitespace c"
    using assms by (auto simp: is_whitespace_10)
  then have "trim (inputBuffer s @ [10] @ currentLine s) = []"
    by (simp only: trim_Nil_iff)
  then show ?thesis using False by (simp add: enter_def Let_def emit_def append_line_def)
qed

lemma loop_body_ctrl_c: "input ! i = 3 \<Longrightarrow> loop_body e input i s = Done (Exited (ctrl_c e s))"
  by (simp add: loop_body_def)

lemma ctrl_c_trace:
  "ctrl_c e s = s\<lparr>trace := trace s @
       [Set_raw_mode (originalRawMode e), Remove_data_listener, Show_goodbye]
       @ (if SELF_DESTRUCT e then [Show_info ''Self-destruct mode: Removing all traces...''] else [])
       @ [Client_cleanup, Process_exit 0]\<rparr>"
  by (simp add: ctrl_c_def cleanup_def emit_def)

lemma loop_body_line_feed:
  "input ! i = 10 \<Longrightarrow> loop_body e input i s = Next (i + 1) (line_feed s)"
  by (simp add: loop_body_def)

lemma enter_skips_line_feed:
  "i + 1 < length input \<Longrightarrow> input ! (i + 1) = 10 \<Longrightarrow>
   enter e input i s = (case enter e [13] 0 s of Next j s' \<Rightarrow> Next (i + 2) s' | Done r \<Rightarrow> Done r)"
  by (simp add: enter_def Let_def)

section \<open>The units of a chunk\<close>

lemma loop_body_next_index:
  "loop_body e input i s = Next i' s' \<Longrightarrow> i' = next_index input i"
  by (auto simp: loop_body_def enter_def escape_def next_index_def Let_def split: if_splits)

lemma loop_body_ends:
  "loop_body e input i s = Done r \<Longrightarrow>
   (input ! i = 3 \<and> r = Exited (ctrl_c e s)) \<or> (input ! i = 13 \<and> (\<exists>v t. r = Resolved v t))"
  by (auto simp: loop_body_def enter_def escape_def Let_def split: if_splits)

lemma next_index_greater: "i < next_index input i"
  by (simp add: next_index_def)

lemma unit_starts_here: "i < length input \<Longrightarrow> i \<in> set (unit_starts input i)"
  by (subst unit_starts.simps) simp

lemma unit_starts_bounds: "k \<in> set (unit_starts input i) \<Longrightarrow> i \<le> k \<and> k < length input"
proof (induction input i rule: unit_starts.induct)
  case (1 input i)
  show ?case
  proof (cases "i < length input")
    case False
    with "1.prems" show ?thesis by (subst (asm) unit_starts.simps) simp
  next
    case True
    from "1.prems" have "k = i \<or> k \<in> set (unit_starts input (next_index input i))"
      by (subst (asm) unit_starts.simps) (simp add: True)
    then show ?thesis
    proof
      assume "k = i"
      then show ?thesis using True by simp
    next
      assume "k \<in> set (unit_starts input (next_index input i))"
      then have "next_index input i \<le> k \<and> k < length input" using "1.IH" [OF True] by simp
      then show ?thesis using next_index_greater [of i input] by simp
    qed
  qed
qed

lemma unit_starts_later:
  "k \<in> set (unit_starts input i) \<Longrightarrow> k \<noteq> i \<Longrightarrow>
   k \<in> set (unit_starts input (next_index input i)) \<and> next_index input i \<le> k"
proof -
  assume k: "k \<in> set (unit_starts input i)" and ne: "k \<noteq> i"
  have "i < length input" using unit_starts_bounds [OF k] by simp
  then have "k \<in> set (unit_starts input (next_index input i))"
    using k ne by (subst (asm) unit_starts.simps) simp
  then show ?thesis using unit_starts_bounds by blast
qed

lemma unit_starts_next:
  "i < length input \<Longrightarrow> k \<in> set (unit_starts input (next_index input i)) \<Longrightarrow>
   k \<in> set (unit_starts input i)"
  by (subst unit_starts.simps) simp

lemma unit_starts_from:
  "u \<in> set (unit_starts input i) \<Longrightarrow> k \<in> set (unit_starts input i) \<Longrightarrow> u \<le> k \<Longrightarrow>
   k \<in> set (unit_starts input u)"
proof (induction input i rule: unit_starts.induct)
  case (1 input i)
  show ?case
  proof (cases "u = i")
    case True
    then show ?thesis using "1.prems"(2) by simp
  next
    case False
    have i: "i < length input" using unit_starts_bounds [OF "1.prems"(1)] by simp
    have u: "u \<in> set (unit_starts input (next_index input i))"
      using unit_starts_later [OF "1.prems"(1) False] by simp
    have "i < u" using unit_starts_bounds [OF "1.prems"(1)] False by simp
    then have "k \<noteq> i" using "1.prems"(3) by simp
    then have k: "k \<in> set (unit_starts input (next_index input i))"
      using unit_starts_later [OF "1.prems"(2)] by simp
    show ?thesis using "1.IH" [OF i u k "1.prems"(3)] .
  qed
qed

text \<open>No unit starts inside another unit.\<close>

lemma unit_starts_apart:
  assumes "u \<in> set (unit_starts input 0)" "k \<in> set (unit_starts input 0)" "u < k"
  shows "next_index input u \<le> k"
proof -
  have "k \<in> set (unit_starts input u)" using unit_starts_from [OF assms(1,2)] assms(3) by simp
  then show ?thesis using unit_starts_later [of k input u] assms(3) by simp
qed

lemma inside_unit:
  assumes "u \<in> set (unit_starts input 0)" "u < k" "k < next_index input u"
  shows "k \<notin> set (unit_starts input 0)"
  using unit_starts_apart [OF assms(1) _ assms(2)] assms(3) by auto

text \<open>Every index of the chunk starts a unit or lies inside one.\<close>

lemma units_cover:
  "i \<le> k \<Longrightarrow> k < length input \<Longrightarrow>
   k \<in> set (unit_starts input i)
   \<or> (\<exists>u\<in>set (unit_starts input i). u < k \<and> k < next_index input u)"
proof (induction input i rule: unit_starts.induct)
  case (1 input i)
  have i: "i < length input" using "1.prems" by simp
  show ?case
  proof (cases "k = i")
    case True
    then show ?thesis using unit_starts_here [OF i] by simp
  next
    case False
    show ?thesis
    proof (cases "k < next_index input i")
      case True
      then show ?thesis using False "1.prems"(1) unit_starts_here [OF i] by auto
    next
      case far: False
      then have "next_index input i \<le> k" by simp
      from "1.IH" [OF i this "1.prems"(2)] show ?thesis
        using unit_starts_next [OF i] by blast
    qed
  qed
qed

lemma state_at_loop:
  "state_at e input i s k = Some t \<Longrightarrow> onData_loop e input i s = onData_loop e input k t"
proof (induction e input i s k rule: state_at.induct)
  case (1 e input i s k)
  show ?case
  proof (cases "i = k")
    case True
    then show ?thesis using "1.prems" by (subst (asm) state_at.simps) simp
  next
    case False
    from "1.prems" False have c: "i < k \<and> i < length input"
      by (subst (asm) state_at.simps) (simp split: if_splits)
    from "1.prems" False c obtain i' s' where body: "loop_body e input i s = Next i' s'"
      and rest: "state_at e input i' s' k = Some t"
      by (subst (asm) state_at.simps) (auto split: iteration.splits)
    have "onData_loop e input i s = onData_loop e input i' s'"
      using c body by (simp add: onData_loop_next)
    then show ?thesis using "1.IH" [OF False c body rest] by simp
  qed
qed

lemma state_at_compose:
  "state_at e input i s u = Some t \<Longrightarrow> u \<le> k \<Longrightarrow>
   state_at e input i s k = state_at e input u t k"
proof (induction e input i s u rule: state_at.induct)
  case (1 e input i s u)
  show ?case
  proof (cases "i = u")
    case True
    then show ?thesis using "1.prems" by (subst (asm) state_at.simps) simp
  next
    case False
    from "1.prems" False have c: "i < u \<and> i < length input"
      by (subst (asm) state_at.simps) (simp split: if_splits)
    from "1.prems" False c obtain i' s' where body: "loop_body e input i s = Next i' s'"
      and rest: "state_at e input i' s' u = Some t"
      by (subst (asm) state_at.simps) (auto split: iteration.splits)
    have "state_at e input i s k = state_at e input i' s' k"
      using c body "1.prems"(2) by (subst state_at.simps) simp
    then show ?thesis using "1.IH" [OF False c body rest "1.prems"(2)] by simp
  qed
qed

lemma state_at_pass:
  assumes "state_at e input 0 s u = Some t" "u < length input"
    "loop_body e input u t = Next j t'"
  shows "state_at e input 0 s j = Some t'"
proof -
  have uj: "u < j" using loop_body_next_index [OF assms(3)] next_index_greater by simp
  then have "state_at e input 0 s j = state_at e input u t j"
    using state_at_compose [OF assms(1), of j] by simp
  also have "\<dots> = state_at e input j t' j"
    using uj assms(2,3) by (subst state_at.simps) simp
  also have "\<dots> = Some t'" by (subst state_at.simps) simp
  finally show ?thesis .
qed

text \<open>
  The loop comes to stand at every unit start, unless a Ctrl+C or a resolving CR at an
  earlier unit start has ended the read.
\<close>

lemma loop_gets_there:
  "k \<in> set (unit_starts input i) \<Longrightarrow>
   (\<exists>t. state_at e input i s k = Some t)
   \<or> (\<exists>j t. j \<in> set (unit_starts input i) \<and> j < k \<and> input ! j = 3
         \<and> onData_loop e input i s = Exited (ctrl_c e t))
   \<or> (\<exists>j v t. j \<in> set (unit_starts input i) \<and> j < k \<and> input ! j = 13
         \<and> onData_loop e input i s = Resolved v t)"
proof (induction e input i s rule: onData_loop.induct)
  case (1 e input i s)
  have i: "i < length input" and ik: "i \<le> k" using unit_starts_bounds [OF "1.prems"] by simp_all
  show ?case
  proof (cases "i = k")
    case True
    have "state_at e input i s k = Some s" using True by (subst state_at.simps) simp
    then show ?thesis by blast
  next
    case False
    then have lt: "i < k" using ik by simp
    have k': "k \<in> set (unit_starts input (next_index input i))"
      using unit_starts_later [OF "1.prems"] False by simp
    show ?thesis
    proof (cases "loop_body e input i s")
      case (Next i' s')
      have i': "i' = next_index input i" using Next by (rule loop_body_next_index)
      have st: "state_at e input i s k = state_at e input i' s' k"
        using lt i Next by (subst state_at.simps) simp
      have lp: "onData_loop e input i s = onData_loop e input i' s'"
        using i Next by (rule onData_loop_next)
      from "1.IH" [OF i Next] k' i'
      have "(\<exists>t. state_at e input i' s' k = Some t)
        \<or> (\<exists>j t. j \<in> set (unit_starts input i') \<and> j < k \<and> input ! j = 3
              \<and> onData_loop e input i' s' = Exited (ctrl_c e t))
        \<or> (\<exists>j v t. j \<in> set (unit_starts input i') \<and> j < k \<and> input ! j = 13
              \<and> onData_loop e input i' s' = Resolved v t)"
        by simp
      then show ?thesis using st lp i' unit_starts_next [OF i] by (metis (no_types, lifting))
    next
      case (Done r)
      have lp: "onData_loop e input i s = r" using i Done by (rule onData_loop_done)
      from loop_body_ends [OF Done] show ?thesis
        using lp lt unit_starts_here [OF i] by blast
    qed
  qed
qed

lemma not_unit_start:
  assumes "k < length input" "k \<notin> set (unit_starts input 0)"
  shows "(\<exists>u\<in>set (unit_starts input 0). input ! u = 13 \<and> k = u + 1 \<and> input ! k = 10)
    \<or> (\<exists>u\<in>set (unit_starts input 0). input ! u = 27 \<and> input ! (u + 1) = 91
          \<and> u + 2 < length input \<and> (k = u + 1 \<or> k = u + 2))"
proof -
  from units_cover [of 0 k input] assms
  obtain u where u: "u \<in> set (unit_starts input 0)" "u < k" "k < next_index input u"
    by auto
  show ?thesis
  proof (cases "input ! u = 13 \<and> u + 1 < length input \<and> input ! (u + 1) = 10")
    case True
    then have "k = u + 1" using u(2,3) by (simp add: next_index_def)
    then show ?thesis using True u(1) by auto
  next
    case False
    then have esc: "input ! u = 27 \<and> u + 2 < length input \<and> input ! (u + 1) = 91"
      using u(2,3) by (auto simp: next_index_def split: if_splits)
    then have "k = u + 1 \<or> k = u + 2" using u(2,3) False by (auto simp: next_index_def)
    then show ?thesis using esc u(1) by auto
  qed
qed

lemma escape_unit_skips:
  assumes "u \<in> set (unit_starts input 0)" "input ! u = 27" "u + 2 < length input"
    "input ! (u + 1) = 91" "input ! (u + 2) \<noteq> 67" "input ! (u + 2) \<noteq> 68"
  shows "u + 2 \<notin> set (unit_starts input 0)"
    and "state_at e input 0 s u = Some t \<Longrightarrow> state_at e input 0 s (u + 3) = Some t"
proof -
  have n: "next_index input u = u + 3" using assms(2,3,4) by (simp add: next_index_def)
  show "u + 2 \<notin> set (unit_starts input 0)"
    using inside_unit [OF assms(1), of "u + 2"] n by simp
  have body: "loop_body e input u t = Next (u + 3) t"
    using assms(2-6) by (simp add: loop_body_def escape_def arrow_key_def)
  assume "state_at e input 0 s u = Some t"
  then show "state_at e input 0 s (u + 3) = Some t"
    using state_at_pass [OF _ _ body] assms(3) by simp
qed

lemma same_up_to:
  "take (k + 1) b = take (k + 1) a \<Longrightarrow> j \<le> k \<Longrightarrow> b ! j = a ! j"
  by (metis less_Suc_eq_le nth_take Suc_eq_plus1)

lemma loop_body_prefix:
  assumes "i < k" "take (k + 1) b = take (k + 1) a" "k < length a" "k < length b" "a ! k \<noteq> 91"
  shows "loop_body e b i s = loop_body e a i s"
proof -
  have b0: "b ! i = a ! i" and b1: "b ! (i + 1) = a ! (i + 1)"
    using same_up_to [OF assms(2)] assms(1) by simp_all
  have l1: "i + 1 < length a" "i + 1 < length b" using assms(1,3,4) by simp_all
  have en: "enter e b i s = enter e a i s"
    using b1 l1 by (simp add: enter_def)
  have es: "escape b i s = escape a i s"
  proof (cases "i + 2 \<le> k")
    case True
    then have "b ! (i + 2) = a ! (i + 2)" "i + 2 < length a" "i + 2 < length b"
      using same_up_to [OF assms(2)] assms(3,4) by simp_all
    then show ?thesis using b1 by (simp add: escape_def)
  next
    case False
    then have "i + 1 = k" using assms(1) by simp
    then have "a ! (i + 1) \<noteq> 91" "b ! (i + 1) \<noteq> 91" using assms(5) b1 by simp_all
    then show ?thesis by (simp add: escape_def)
  qed
  show ?thesis unfolding loop_body_def b0 en es by (rule refl)
qed

lemma loop_prefix:
  "k \<in> set (unit_starts a i) \<Longrightarrow> a ! k = 3 \<Longrightarrow> take (k + 1) b = take (k + 1) a \<Longrightarrow>
   k < length b \<Longrightarrow> onData_loop e b i s = onData_loop e a i s"
proof (induction e a i s rule: onData_loop.induct)
  case (1 e a i s)
  have k: "k < length a" and ik: "i \<le> k" using unit_starts_bounds [OF "1.prems"(1)] by simp_all
  have i: "i < length a" and i': "i < length b" using ik k "1.prems"(4) by simp_all
  show ?case
  proof (cases "i = k")
    case True
    have "b ! k = 3" using same_up_to [OF "1.prems"(3), of k] "1.prems"(2) by simp
    then show ?thesis
      using True "1.prems"(2) i i' by (simp add: onData_loop_done loop_body_ctrl_c)
  next
    case False
    then have lt: "i < k" using ik by simp
    have same: "loop_body e b i s = loop_body e a i s"
      using loop_body_prefix [OF lt "1.prems"(3) k "1.prems"(4)] "1.prems"(2) by simp
    show ?thesis
    proof (cases "loop_body e a i s")
      case (Next j t)
      have j: "j = next_index a i" using Next by (rule loop_body_next_index)
      have kj: "k \<in> set (unit_starts a j)"
        using unit_starts_later [OF "1.prems"(1)] False j by simp
      have "onData_loop e b i s = onData_loop e b j t"
        using i' same Next by (simp add: onData_loop_next)
      also have "\<dots> = onData_loop e a j t"
        using "1.IH" [OF i Next kj "1.prems"(2,3,4)] .
      also have "\<dots> = onData_loop e a i s"
        using i Next by (simp add: onData_loop_next)
      finally show ?thesis .
    next
      case (Done r)
      then show ?thesis using same i i' by (simp add: onData_loop_done)
    qed
  qed
qed

text \<open>
  Claim C8, as the code has it. The loop passes through a chunk unit by unit: a CR that
  an LF follows directly is one unit of two bytes, \<open>ESC [ x\<close> is one unit of three
  bytes when a \<open>[\<close> and a third byte follow in the chunk, every other byte is a unit
  of its own. At a byte 3 the loop exits: \<open>cleanup\<close> sets raw mode back to the mode saved
  at entry and removes the listener, the goodbye is shown, the client is cleaned up and
  the process exits with code 0. Whenever a byte 3 starts a unit, the chunk ends the
  read and the rest of the chunk is abandoned: the outcome is that of the chunk cut off
  behind the byte 3, whatever follows it, and no later chunk is read. The outcome is a
  Cancel, at this byte 3 or at an earlier one, unless a CR that starts an earlier unit
  has resolved the read; with no CR at an earlier unit start it is a Cancel. A byte 3
  that starts no unit is the third byte of an \<open>ESC [ x\<close> unit, and the loop steps over
  it with the unit, its state unchanged.
\<close>

theorem C8:
  "(k < length input \<and> input ! k = 3 \<longrightarrow>
      onData_loop e input k t =
        Exited (t\<lparr>trace := trace t @
          [Set_raw_mode (originalRawMode e), Remove_data_listener, Show_goodbye]
          @ (if SELF_DESTRUCT e
             then [Show_info ''Self-destruct mode: Removing all traces...''] else [])
          @ [Client_cleanup, Process_exit 0]\<rparr>)
      \<and> ctrl_c e t = t\<lparr>trace := trace t @
          [Set_raw_mode (originalRawMode e), Remove_data_listener, Show_goodbye]
          @ (if SELF_DESTRUCT e
             then [Show_info ''Self-destruct mode: Removing all traces...''] else [])
          @ [Client_cleanup, Process_exit 0]\<rparr>)
   \<and> (k \<in> set (unit_starts input 0) \<and> input ! k = 3 \<longrightarrow>
        ((\<exists>t. state_at e input 0 s k = Some t \<and> onData e input s = Exited (ctrl_c e t))
         \<or> (\<exists>j t. j \<in> set (unit_starts input 0) \<and> j < k \<and> input ! j = 3
               \<and> onData e input s = Exited (ctrl_c e t))
         \<or> (\<exists>j v t. j \<in> set (unit_starts input 0) \<and> j < k \<and> input ! j = 13
               \<and> onData e input s = Resolved v t))
        \<and> ((\<forall>j. j \<in> set (unit_starts input 0) \<and> j < k \<longrightarrow> input ! j \<noteq> 13) \<longrightarrow>
             (\<exists>t. onData e input s = Exited (ctrl_c e t)))
        \<and> (\<forall>rest. onData e (take (k + 1) input @ rest) s = onData e input s)
        \<and> (\<forall>chunks. feed e s (input # chunks) = onData e input s))
   \<and> (u \<in> set (unit_starts input 0) \<and> input ! u = 27 \<and> u + 2 < length input
        \<and> input ! (u + 1) = 91 \<and> input ! (u + 2) = 3 \<longrightarrow>
        u + 2 \<notin> set (unit_starts input 0)
        \<and> (\<forall>t. state_at e input 0 s u = Some t \<longrightarrow> state_at e input 0 s (u + 3) = Some t))
   \<and> (k < length input \<and> input ! k = 3 \<and> k \<notin> set (unit_starts input 0) \<longrightarrow>
        2 \<le> k \<and> k - 2 \<in> set (unit_starts input 0) \<and> input ! (k - 2) = 27
        \<and> input ! (k - 1) = 91
        \<and> (\<forall>t. state_at e input 0 s (k - 2) = Some t \<longrightarrow>
              state_at e input 0 s (k + 1) = Some t))"
proof (intro conjI impI)
  assume a: "k < length input \<and> input ! k = 3"
  then show "onData_loop e input k t =
        Exited (t\<lparr>trace := trace t @
          [Set_raw_mode (originalRawMode e), Remove_data_listener, Show_goodbye]
          @ (if SELF_DESTRUCT e
             then [Show_info ''Self-destruct mode: Removing all traces...''] else [])
          @ [Client_cleanup, Process_exit 0]\<rparr>)"
    using onData_loop_done [of k input e t, OF _ loop_body_ctrl_c]
    by (simp only: ctrl_c_trace)
  show "ctrl_c e t = t\<lparr>trace := trace t @
          [Set_raw_mode (originalRawMode e), Remove_data_listener, Show_goodbye]
          @ (if SELF_DESTRUCT e
             then [Show_info ''Self-destruct mode: Removing all traces...''] else [])
          @ [Client_cleanup, Process_exit 0]\<rparr>"
    by (rule ctrl_c_trace)
next
  assume a: "k \<in> set (unit_starts input 0) \<and> input ! k = 3"
  then have k: "k \<in> set (unit_starts input 0)" and b3: "input ! k = 3" by simp_all
  have len: "k < length input" using unit_starts_bounds [OF k] by simp
  have at_k: "onData_loop e input k t = Exited (ctrl_c e t)" for t
    using len b3 by (simp add: onData_loop_done loop_body_ctrl_c)
  show cases3: "(\<exists>t. state_at e input 0 s k = Some t \<and> onData e input s = Exited (ctrl_c e t))
         \<or> (\<exists>j t. j \<in> set (unit_starts input 0) \<and> j < k \<and> input ! j = 3
               \<and> onData e input s = Exited (ctrl_c e t))
         \<or> (\<exists>j v t. j \<in> set (unit_starts input 0) \<and> j < k \<and> input ! j = 13
               \<and> onData e input s = Resolved v t)"
    using loop_gets_there [OF k, of e s] state_at_loop [of e input 0 s k] at_k
    unfolding onData_def by metis
  show "\<exists>t. onData e input s = Exited (ctrl_c e t)"
    if "\<forall>j. j \<in> set (unit_starts input 0) \<and> j < k \<longrightarrow> input ! j \<noteq> 13"
    using cases3 that by blast
  show "\<forall>rest. onData e (take (k + 1) input @ rest) s = onData e input s"
  proof
    fix rest
    have "take (k + 1) (take (k + 1) input @ rest) = take (k + 1) input"
      using len by simp
    moreover have "k < length (take (k + 1) input @ rest)" using len by simp
    ultimately show "onData e (take (k + 1) input @ rest) s = onData e input s"
      unfolding onData_def using loop_prefix [OF k b3] by blast
  qed
  show "\<forall>chunks. feed e s (input # chunks) = onData e input s"
    using cases3 by auto
next
  assume a: "u \<in> set (unit_starts input 0) \<and> input ! u = 27 \<and> u + 2 < length input
        \<and> input ! (u + 1) = 91 \<and> input ! (u + 2) = 3"
  then show "u + 2 \<notin> set (unit_starts input 0)"
    using escape_unit_skips(1) [of u input] by simp
  show "\<forall>t. state_at e input 0 s u = Some t \<longrightarrow> state_at e input 0 s (u + 3) = Some t"
    using a escape_unit_skips(2) [of u input e s] by simp
next
  assume a: "k < length input \<and> input ! k = 3 \<and> k \<notin> set (unit_starts input 0)"
  then have "\<exists>u\<in>set (unit_starts input 0). input ! u = 27 \<and> input ! (u + 1) = 91 \<and> k = u + 2"
    using not_unit_start [of k input] by auto
  then obtain u where u: "u \<in> set (unit_starts input 0)" "input ! u = 27" "input ! (u + 1) = 91"
    "k = u + 2" by blast
  then show "2 \<le> k" "k - 2 \<in> set (unit_starts input 0)" "input ! (k - 2) = 27"
    "input ! (k - 1) = 91" by simp_all
  have "state_at e input 0 s (u + 3) = Some t" if "state_at e input 0 s u = Some t" for t
    using escape_unit_skips(2) [OF u(1,2) _ u(3), of e s t] u(4) a that by simp
  then show "\<forall>t. state_at e input 0 s (k - 2) = Some t \<longrightarrow>
              state_at e input 0 s (k + 1) = Some t"
    using u(4) by (simp add: numeral_3_eq_3)
qed

lemmas unit_defs = unit_starts.simps next_index_def state_at.simps

text \<open>
  Against claim C8 as stated. In \<open>ESC [ 0x03 a\<close> the byte 3 is the key of the escape
  unit: the listener goes on listening in raw mode and the \<open>a\<close> behind the byte 3 is
  inserted and echoed. In \<open>a CR 0x03\<close> the CR resolves the read with \<open>a\<close> and the byte
  3 behind it is never decoded: the process does not exit. When the terminal was in raw
  mode before the read, Ctrl+C sets raw mode to true again: it is restored, not
  released.
\<close>

theorem C8_counterexample:
  "getMultiLineInput brahma [[27, 91, 3, 97]] =
     Listening \<lparr>inputBuffer = [], currentLine = [97], cursorPos = 1,
       trace = [Set_raw_mode True, Stdin_resume, Stdout_write getUserPrompt, Stdout_write [97]]\<rparr>
   \<and> getMultiLineInput brahma [[97, 13, 3]] =
     Resolved [97] \<lparr>inputBuffer = [97], currentLine = [97], cursorPos = 1,
       trace = [Set_raw_mode True, Stdin_resume, Stdout_write getUserPrompt, Stdout_write [97],
                Set_raw_mode False, Remove_data_listener, Stdout_write [10],
                Promise_resolve [97]]\<rparr>
   \<and> getMultiLineInput (brahma\<lparr>originalRawMode := True\<rparr>) [[3]] =
     Exited \<lparr>inputBuffer = [], currentLine = [], cursorPos = 0,
       trace = [Set_raw_mode True, Stdin_resume, Stdout_write getUserPrompt,
                Set_raw_mode True, Remove_data_listener, Show_goodbye,
                Show_info ''Self-destruct mode: Removing all traces...'',
                Client_cleanup, Process_exit 0]\<rparr>"
  by (simp add: eval_defs)

text \<open>
  Up arrow, Ctrl+C, \<open>a\<close>: the byte 3 starts the second unit, the loop gets to it in the
  initial state and the process exits; the chunk cut off behind the byte 3 and followed
  by other bytes does the same, and the next chunk is not read. In \<open>ESC [ 0x03 a\<close>
  index 2 starts no unit and the loop stands at index 3 in the initial state.
\<close>

theorem C8_witness:
  "3 \<in> set (unit_starts [27, 91, 65, 3, 97] 0) \<and> [27::nat, 91, 65, 3, 97] ! 3 = 3
   \<and> state_at brahma [27, 91, 65, 3, 97] 0 (initial brahma) 3 = Some (initial brahma)
   \<and> onData brahma [27, 91, 65, 3, 97] (initial brahma) = Exited (ctrl_c brahma (initial brahma))
   \<and> onData brahma ([27, 91, 65, 3] @ [98, 13]) (initial brahma)
       = onData brahma [27, 91, 65, 3, 97] (initial brahma)
   \<and> getMultiLineInput brahma [[27, 91, 65, 3, 97], [98, 13]]
       = onData brahma [27, 91, 65, 3, 97] (initial brahma)
   \<and> 2 \<notin> set (unit_starts [27, 91, 3, 97] 0)
   \<and> state_at brahma [27, 91, 3, 97] 0 (initial brahma) 3 = Some (initial brahma)"
proof -
  have us: "3 \<in> set (unit_starts [27, 91, 65, 3, 97] 0)" by (simp add: unit_defs)
  have b3: "[27::nat, 91, 65, 3, 97] ! 3 = 3" by simp
  have st: "state_at brahma [27, 91, 65, 3, 97] 0 (initial brahma) 3 = Some (initial brahma)"
    by (simp add: unit_defs loop_body_def escape_def arrow_key_def)
  note c = C8 [where k = 3 and input = "[27, 91, 65, 3, 97]" and e = brahma
      and s = "initial brahma" and t = "initial brahma",
      THEN conjunct2, THEN conjunct1, rule_format, OF conjI [OF us b3]]
  have ex: "onData brahma [27, 91, 65, 3, 97] (initial brahma) = Exited (ctrl_c brahma (initial brahma))"
    using C8 [where k = 3 and input = "[27, 91, 65, 3, 97]" and e = brahma
      and t = "initial brahma", THEN conjunct1] state_at_loop [OF st]
    by (simp add: onData_def ctrl_c_trace)
  have cut: "onData brahma ([27, 91, 65, 3] @ [98, 13]) (initial brahma)
       = onData brahma [27, 91, 65, 3, 97] (initial brahma)"
    using c [THEN conjunct2, THEN conjunct2, THEN conjunct1, rule_format, of "[98, 13]"]
    by simp
  have later: "getMultiLineInput brahma [[27, 91, 65, 3, 97], [98, 13]]
       = onData brahma [27, 91, 65, 3, 97] (initial brahma)"
    using c [THEN conjunct2, THEN conjunct2, THEN conjunct2, rule_format, of "[[98, 13]]"]
    by (simp add: getMultiLineInput_def)
  have us0: "0 \<in> set (unit_starts [27, 91, 3, 97] 0)" by (simp add: unit_defs)
  have st0: "state_at brahma [27, 91, 3, 97] 0 (initial brahma) 0 = Some (initial brahma)"
    by (simp add: state_at.simps)
  have skip: "2 \<notin> set (unit_starts [27, 91, 3, 97] 0)
      \<and> state_at brahma [27, 91, 3, 97] 0 (initial brahma) 3 = Some (initial brahma)"
    using C8 [where u = 0 and input = "[27, 91, 3, 97]" and e = brahma
      and s = "initial brahma", THEN conjunct2, THEN conjunct2, THEN conjunct1] us0 st0
    by (simp add: numeral_2_eq_2)
  show ?thesis using us b3 st ex cut later skip by simp
qed

lemma loop_gets_there_chunk:
  "k \<in> set (unit_starts input 0) \<Longrightarrow>
   (\<exists>t. state_at e input 0 s k = Some t)
   \<or> (\<exists>j t. j \<in> set (unit_starts input 0) \<and> j < k \<and> input ! j = 3
         \<and> onData e input s = Exited (ctrl_c e t))
   \<or> (\<exists>j v t. j \<in> set (unit_starts input 0) \<and> j < k \<and> input ! j = 13
         \<and> onData e input s = Resolved v t)"
  unfolding onData_def by (rule loop_gets_there)

text \<open>
  Claim C3, as the code has it. Whenever a CR that starts a unit is directly followed by
  an LF, the LF starts no unit, and when the loop gets to the CR the pair is handled as
  the lone CR is (one Enter: the read is resolved, or the blank Submit is absorbed and
  decoding goes on behind the LF). Whenever an LF starts a unit and the loop gets to it,
  the current line is appended to \<open>inputBuffer\<close>, a new empty line is begun with the
  cursor at column 0, the continuation prompt is written, and the loop goes on behind
  the LF without resolving the read. The loop gets to every unit start unless a Ctrl+C
  or a resolving CR at an earlier unit start has ended the read. A CR that starts no
  unit is the third byte of an \<open>ESC [ x\<close> unit; an LF that starts no unit is the LF of
  a CR LF unit or the third byte of an \<open>ESC [ x\<close> unit; the loop steps over such a
  third byte with the unit, its state unchanged.
\<close>

theorem C3:
  "(k \<in> set (unit_starts input 0) \<and> input ! k = 13 \<and> k + 1 < length input
      \<and> input ! (k + 1) = 10 \<longrightarrow>
      k + 1 \<notin> set (unit_starts input 0)
      \<and> (\<forall>t. state_at e input 0 s k = Some t \<longrightarrow>
           onData e input s =
             (case loop_body e [13] 0 t of
                Next j t' \<Rightarrow> onData_loop e input (k + 2) t'
              | Done r \<Rightarrow> r)
           \<and> (\<forall>j t'. loop_body e [13] 0 t = Next j t' \<longrightarrow>
                 state_at e input 0 s (k + 2) = Some t')))
   \<and> (k \<in> set (unit_starts input 0) \<and> input ! k = 10 \<longrightarrow>
      (\<forall>t. state_at e input 0 s k = Some t \<longrightarrow>
         state_at e input 0 s (k + 1) =
           Some (t\<lparr>inputBuffer := (if inputBuffer t = [] then currentLine t
                                   else inputBuffer t @ [10] @ currentLine t),
                  currentLine := [], cursorPos := 0,
                  trace := trace t @ [Stdout_write (str ''\<newline>  > '')]\<rparr>)))
   \<and> (k \<in> set (unit_starts input 0) \<longrightarrow>
      (\<exists>t. state_at e input 0 s k = Some t)
      \<or> (\<exists>j t. j \<in> set (unit_starts input 0) \<and> j < k \<and> input ! j = 3
            \<and> onData e input s = Exited (ctrl_c e t))
      \<or> (\<exists>j v t. j \<in> set (unit_starts input 0) \<and> j < k \<and> input ! j = 13
            \<and> onData e input s = Resolved v t))
   \<and> (k < length input \<and> (input ! k = 13 \<or> input ! k = 10)
        \<and> k \<notin> set (unit_starts input 0) \<longrightarrow>
      (input ! k = 10 \<and> 1 \<le> k \<and> k - 1 \<in> set (unit_starts input 0) \<and> input ! (k - 1) = 13)
      \<or> (2 \<le> k \<and> k - 2 \<in> set (unit_starts input 0) \<and> input ! (k - 2) = 27
           \<and> input ! (k - 1) = 91
           \<and> (\<forall>t. state_at e input 0 s (k - 2) = Some t \<longrightarrow>
                 state_at e input 0 s (k + 1) = Some t)))
   \<and> (u \<in> set (unit_starts input 0) \<and> input ! u = 27 \<and> u + 2 < length input
        \<and> input ! (u + 1) = 91 \<and> (input ! (u + 2) = 13 \<or> input ! (u + 2) = 10) \<longrightarrow>
        u + 2 \<notin> set (unit_starts input 0)
        \<and> (\<forall>t. state_at e input 0 s u = Some t \<longrightarrow> state_at e input 0 s (u + 3) = Some t))"
proof (intro conjI impI allI)
  assume a: "k \<in> set (unit_starts input 0) \<and> input ! k = 13 \<and> k + 1 < length input
      \<and> input ! (k + 1) = 10"
  then have n: "next_index input k = k + 2" by (simp add: next_index_def)
  show "k + 1 \<notin> set (unit_starts input 0)"
    using inside_unit [of k input "k + 1"] a n by simp
  have body: "loop_body e input k t =
      (case loop_body e [13] 0 t of Next j t' \<Rightarrow> Next (k + 2) t' | Done r \<Rightarrow> Done r)" for t
    using a by (simp add: loop_body_enter enter_skips_line_feed)
  {
    fix t
    assume st: "state_at e input 0 s k = Some t"
    have k: "k < length input" using a by simp
    have "onData e input s = onData_loop e input k t"
      using state_at_loop [OF st] by (simp add: onData_def)
    also have "\<dots> = (case loop_body e [13] 0 t of
                Next j t' \<Rightarrow> onData_loop e input (k + 2) t'
              | Done r \<Rightarrow> r)"
      using body [of t] k
      by (cases "loop_body e [13] 0 t") (simp_all add: onData_loop_next onData_loop_done)
    finally show "onData e input s =
             (case loop_body e [13] 0 t of
                Next j t' \<Rightarrow> onData_loop e input (k + 2) t'
              | Done r \<Rightarrow> r)" .
    fix j t'
    assume "loop_body e [13] 0 t = Next j t'"
    then have "loop_body e input k t = Next (k + 2) t'" using body [of t] by simp
    then show "state_at e input 0 s (k + 2) = Some t'"
      using state_at_pass [OF st k] by simp
  }
next
  fix t
  assume a: "k \<in> set (unit_starts input 0) \<and> input ! k = 10"
    and st: "state_at e input 0 s k = Some t"
  have k: "k < length input" using a unit_starts_bounds by blast
  have "loop_body e input k t = Next (k + 1) (line_feed t)"
    using a by (simp add: loop_body_line_feed)
  then have "state_at e input 0 s (k + 1) = Some (line_feed t)"
    using state_at_pass [OF st k] by simp
  then show "state_at e input 0 s (k + 1) =
           Some (t\<lparr>inputBuffer := (if inputBuffer t = [] then currentLine t
                                   else inputBuffer t @ [10] @ currentLine t),
                  currentLine := [], cursorPos := 0,
                  trace := trace t @ [Stdout_write (str ''\<newline>  > '')]\<rparr>)"
    by (simp add: line_feed_def emit_def append_line_def)
next
  assume "k \<in> set (unit_starts input 0)"
  then show "(\<exists>t. state_at e input 0 s k = Some t)
      \<or> (\<exists>j t. j \<in> set (unit_starts input 0) \<and> j < k \<and> input ! j = 3
            \<and> onData e input s = Exited (ctrl_c e t))
      \<or> (\<exists>j v t. j \<in> set (unit_starts input 0) \<and> j < k \<and> input ! j = 13
            \<and> onData e input s = Resolved v t)"
    by (rule loop_gets_there_chunk)
next
  assume a: "k < length input \<and> (input ! k = 13 \<or> input ! k = 10)
        \<and> k \<notin> set (unit_starts input 0)"
  from not_unit_start [of k input] a
  consider u where "u \<in> set (unit_starts input 0)" "input ! u = 13" "k = u + 1" "input ! k = 10"
    | u where "u \<in> set (unit_starts input 0)" "input ! u = 27" "input ! (u + 1) = 91" "k = u + 2"
    by auto
  then show "(input ! k = 10 \<and> 1 \<le> k \<and> k - 1 \<in> set (unit_starts input 0) \<and> input ! (k - 1) = 13)
      \<or> (2 \<le> k \<and> k - 2 \<in> set (unit_starts input 0) \<and> input ! (k - 2) = 27
           \<and> input ! (k - 1) = 91
           \<and> (\<forall>t. state_at e input 0 s (k - 2) = Some t \<longrightarrow>
                 state_at e input 0 s (k + 1) = Some t))"
  proof cases
    case 1
    then show ?thesis by simp
  next
    case 2
    have "state_at e input 0 s (u + 3) = Some t" if "state_at e input 0 s u = Some t" for t
      using escape_unit_skips(2) [OF 2(1,2) _ 2(3), of e s t] 2(4) a that by auto
    then have "\<forall>t. state_at e input 0 s (k - 2) = Some t \<longrightarrow>
                 state_at e input 0 s (k + 1) = Some t"
      using 2(4) by (simp add: numeral_3_eq_3)
    then show ?thesis using 2 by simp
  qed
next
  assume a: "u \<in> set (unit_starts input 0) \<and> input ! u = 27 \<and> u + 2 < length input
        \<and> input ! (u + 1) = 91 \<and> (input ! (u + 2) = 13 \<or> input ! (u + 2) = 10)"
  then show "u + 2 \<notin> set (unit_starts input 0)"
    using escape_unit_skips(1) [of u input] by auto
  fix t
  assume "state_at e input 0 s u = Some t"
  then show "state_at e input 0 s (u + 3) = Some t"
    using a escape_unit_skips(2) [of u input e s t] by auto
qed

text \<open>
  Against claim C3 as stated. In \<open>H ESC [ CR LF\<close> the CR is the key of the escape unit
  and the LF behind it starts a new line: \<open>H\<close> is committed, the continuation prompt is
  written and nothing is submitted. In \<open>H ESC [ LF\<close> the LF, which no CR precedes, is
  the key of the escape unit and commits nothing. In \<open>a CR b LF\<close> the CR resolves the
  read and the LF behind \<open>b\<close> is never decoded.
\<close>

theorem C3_counterexample:
  "getMultiLineInput brahma [[72, 27, 91, 13, 10]] =
     Listening \<lparr>inputBuffer = [72], currentLine = [], cursorPos = 0,
       trace = [Set_raw_mode True, Stdin_resume, Stdout_write getUserPrompt, Stdout_write [72],
                Stdout_write (str ''\<newline>  > '')]\<rparr>
   \<and> getMultiLineInput brahma [[72, 27, 91, 10]] =
     Listening \<lparr>inputBuffer = [], currentLine = [72], cursorPos = 1,
       trace = [Set_raw_mode True, Stdin_resume, Stdout_write getUserPrompt, Stdout_write [72]]\<rparr>
   \<and> getMultiLineInput brahma [[97, 13, 98, 10]] =
     Resolved [97] \<lparr>inputBuffer = [97], currentLine = [97], cursorPos = 1,
       trace = [Set_raw_mode True, Stdin_resume, Stdout_write getUserPrompt, Stdout_write [97],
                Set_raw_mode False, Remove_data_listener, Stdout_write [10],
                Promise_resolve [97]]\<rparr>"
  by (simp add: eval_defs)

text \<open>
  \<open>H LF i CR LF\<close>: the LF at index 1 starts a unit and commits \<open>H\<close>; the CR at index 3
  starts a unit, the LF at index 4 does not, and the pair resolves the read with
  \<open>H\ni\<close>.
\<close>

theorem C3_witness:
  "1 \<in> set (unit_starts [72, 10, 105, 13, 10] 0) \<and> [72::nat, 10, 105, 13, 10] ! 1 = 10
   \<and> state_at brahma [72, 10, 105, 13, 10] 0 \<lparr>inputBuffer = [], currentLine = [], cursorPos = 0, trace = []\<rparr> 1
       = Some \<lparr>inputBuffer = [], currentLine = [72], cursorPos = 1, trace = [Stdout_write [72]]\<rparr>
   \<and> state_at brahma [72, 10, 105, 13, 10] 0 \<lparr>inputBuffer = [], currentLine = [], cursorPos = 0, trace = []\<rparr> 2
       = Some \<lparr>inputBuffer = [72], currentLine = [], cursorPos = 0,
                trace = [Stdout_write [72], Stdout_write [10, 32, 32, 62, 32]]\<rparr>
   \<and> 3 \<in> set (unit_starts [72, 10, 105, 13, 10] 0) \<and> [72::nat, 10, 105, 13, 10] ! 3 = 13
   \<and> [72::nat, 10, 105, 13, 10] ! 4 = 10
   \<and> 4 \<notin> set (unit_starts [72, 10, 105, 13, 10] 0)
   \<and> state_at brahma [72, 10, 105, 13, 10] 0 \<lparr>inputBuffer = [], currentLine = [], cursorPos = 0, trace = []\<rparr> 3
       = Some \<lparr>inputBuffer = [72], currentLine = [105], cursorPos = 1,
                trace = [Stdout_write [72], Stdout_write [10, 32, 32, 62, 32], Stdout_write [105]]\<rparr>
   \<and> returned (onData brahma [72, 10, 105, 13, 10]
          \<lparr>inputBuffer = [], currentLine = [], cursorPos = 0, trace = []\<rparr>) = Some [72, 10, 105]"
proof -
  let ?W = "[72::nat, 10, 105, 13, 10]"
  let ?s = "\<lparr>inputBuffer = [], currentLine = [], cursorPos = 0, trace = []\<rparr>"
  let ?t1 = "\<lparr>inputBuffer = [], currentLine = [72], cursorPos = 1, trace = [Stdout_write [72]]\<rparr>"
  let ?t3 = "\<lparr>inputBuffer = [72], currentLine = [105], cursorPos = 1,
                trace = [Stdout_write [72], Stdout_write [10, 32, 32, 62, 32], Stdout_write [105]]\<rparr>"
  have us1: "1 \<in> set (unit_starts ?W 0)" and us3: "3 \<in> set (unit_starts ?W 0)"
    by (simp_all add: unit_defs)
  have st1: "state_at brahma ?W 0 ?s 1 = Some ?t1"
    by (simp add: unit_defs eval_defs)
  have st3: "state_at brahma ?W 0 ?s 3 = Some ?t3"
    by (simp add: unit_defs eval_defs)
  have st2: "state_at brahma ?W 0 ?s 2
       = Some \<lparr>inputBuffer = [72], currentLine = [], cursorPos = 0,
                trace = [Stdout_write [72], Stdout_write [10, 32, 32, 62, 32]]\<rparr>"
    using C3 [where k = 1 and input = ?W and e = brahma and s = ?s,
        THEN conjunct2, THEN conjunct1] us1 st1
    by (simp add: str_def numeral_2_eq_2)
  have crlf: "4 \<notin> set (unit_starts ?W 0)
      \<and> onData brahma ?W ?s =
             (case loop_body brahma [13] 0 ?t3 of
                Next j t' \<Rightarrow> onData_loop brahma ?W (3 + 2) t'
              | Done r \<Rightarrow> r)"
    using C3 [where k = 3 and input = ?W and e = brahma and s = ?s, THEN conjunct1] us3 st3
    by simp
  have "loop_body brahma [13] 0 ?t3 = Done (Resolved [72, 10, 105]
      (?t3\<lparr>inputBuffer := [72, 10, 105],
           trace := trace ?t3 @ [Set_raw_mode False, Remove_data_listener, Stdout_write [10],
                                Promise_resolve [72, 10, 105]]\<rparr>))"
    by (simp add: eval_defs)
  then have "returned (onData brahma ?W ?s) = Some [72, 10, 105]"
    using crlf by simp
  then show ?thesis using us1 us3 st1 st2 st3 crlf by simp
qed

lemma printable_inserts:
  "0 \<le> cursorPos t \<Longrightarrow> cursorPos t \<le> int (length (currentLine t)) \<Longrightarrow>
   currentLine (printable c t)
     = take (nat (cursorPos t)) (currentLine t) @ [c] @ drop (nat (cursorPos t)) (currentLine t)"
  by (simp add: printable_def Let_def move_back_buffer emit_def slice_take slice_from_drop)

text \<open>
  Claim C2, as the code has it. Whenever an ESC byte (27) starts a unit and is not
  followed in the chunk by \<open>[\<close> and one of \<open>A\<close>, \<open>B\<close>, \<open>C\<close>, \<open>D\<close>, the unit is the three
  bytes \<open>ESC [ x\<close> when a \<open>[\<close> and a third byte follow and the ESC alone otherwise, and
  when the loop gets to it the loop goes on behind the unit with its state unchanged:
  nothing is inserted, nothing is written, the read is not ended. Only the unit is
  dropped. What stands behind it is decoded as usual: a printable byte directly behind
  the unit is inserted into the current line at the cursor. The loop gets to every unit
  start unless a Ctrl+C or a resolving CR at an earlier unit start has ended the read.
  An ESC that starts no unit is the third byte of an \<open>ESC [ x\<close> unit, and the loop
  steps over it with the unit, its state unchanged.
\<close>

theorem C2:
  "(u \<in> set (unit_starts input 0) \<and> input ! u = 27
      \<and> \<not> (u + 2 < length input \<and> input ! (u + 1) = 91 \<and> input ! (u + 2) \<in> {65, 66, 67, 68}) \<longrightarrow>
      next_index input u = (if u + 2 < length input \<and> input ! (u + 1) = 91 then u + 3 else u + 1)
      \<and> (\<forall>t. state_at e input 0 s u = Some t \<longrightarrow>
           state_at e input 0 s (next_index input u) = Some t
           \<and> onData e input s = onData_loop e input (next_index input u) t
           \<and> (next_index input u < length input \<and> 32 \<le> input ! next_index input u
                \<and> input ! next_index input u \<le> 126 \<longrightarrow>
                state_at e input 0 s (next_index input u + 1)
                  = Some (printable (input ! next_index input u) t)
                \<and> (0 \<le> cursorPos t \<and> cursorPos t \<le> int (length (currentLine t)) \<longrightarrow>
                     currentLine (printable (input ! next_index input u) t)
                       = take (nat (cursorPos t)) (currentLine t) @ [input ! next_index input u]
                         @ drop (nat (cursorPos t)) (currentLine t)))))
   \<and> (u \<in> set (unit_starts input 0) \<longrightarrow>
      (\<exists>t. state_at e input 0 s u = Some t)
      \<or> (\<exists>j t. j \<in> set (unit_starts input 0) \<and> j < u \<and> input ! j = 3
            \<and> onData e input s = Exited (ctrl_c e t))
      \<or> (\<exists>j v t. j \<in> set (unit_starts input 0) \<and> j < u \<and> input ! j = 13
            \<and> onData e input s = Resolved v t))
   \<and> (k < length input \<and> input ! k = 27 \<and> k \<notin> set (unit_starts input 0) \<longrightarrow>
      2 \<le> k \<and> k - 2 \<in> set (unit_starts input 0) \<and> input ! (k - 2) = 27
      \<and> input ! (k - 1) = 91
      \<and> (\<forall>t. state_at e input 0 s (k - 2) = Some t \<longrightarrow> state_at e input 0 s (k + 1) = Some t))"
proof (intro conjI impI allI)
  assume a: "u \<in> set (unit_starts input 0) \<and> input ! u = 27
      \<and> \<not> (u + 2 < length input \<and> input ! (u + 1) = 91 \<and> input ! (u + 2) \<in> {65, 66, 67, 68})"
  then have u: "u < length input" using unit_starts_bounds by blast
  show n: "next_index input u = (if u + 2 < length input \<and> input ! (u + 1) = 91 then u + 3 else u + 1)"
    using a by (simp add: next_index_def)
  have body: "loop_body e input u t = Next (next_index input u) t" for t
    using a by (auto simp: loop_body_def escape_def arrow_key_def next_index_def)
  {
    fix t
    assume st: "state_at e input 0 s u = Some t"
    show st': "state_at e input 0 s (next_index input u) = Some t"
      using state_at_pass [OF st u body] .
    show "onData e input s = onData_loop e input (next_index input u) t"
      using state_at_loop [OF st'] by (simp add: onData_def)
    assume p: "next_index input u < length input \<and> 32 \<le> input ! next_index input u
                \<and> input ! next_index input u \<le> 126"
    then have "loop_body e input (next_index input u) t
        = Next (next_index input u + 1) (printable (input ! next_index input u) t)"
      by (simp add: loop_body_printable)
    then show "state_at e input 0 s (next_index input u + 1)
                  = Some (printable (input ! next_index input u) t)"
      using state_at_pass [OF st'] p by simp
    assume "0 \<le> cursorPos t \<and> cursorPos t \<le> int (length (currentLine t))"
    then show "currentLine (printable (input ! next_index input u) t)
                       = take (nat (cursorPos t)) (currentLine t) @ [input ! next_index input u]
                         @ drop (nat (cursorPos t)) (currentLine t)"
      by (simp add: printable_inserts)
  }
next
  assume "u \<in> set (unit_starts input 0)"
  then show "(\<exists>t. state_at e input 0 s u = Some t)
      \<or> (\<exists>j t. j \<in> set (unit_starts input 0) \<and> j < u \<and> input ! j = 3
            \<and> onData e input s = Exited (ctrl_c e t))
      \<or> (\<exists>j v t. j \<in> set (unit_starts input 0) \<and> j < u \<and> input ! j = 13
            \<and> onData e input s = Resolved v t)"
    by (rule loop_gets_there_chunk)
next
  assume a: "k < length input \<and> input ! k = 27 \<and> k \<notin> set (unit_starts input 0)"
  then have "\<exists>u\<in>set (unit_starts input 0). input ! u = 27 \<and> input ! (u + 1) = 91
      \<and> u + 2 < length input \<and> k = u + 2"
    using not_unit_start [of k input] by auto
  then obtain u where u: "u \<in> set (unit_starts input 0)" "input ! u = 27" "input ! (u + 1) = 91"
    "u + 2 < length input" "k = u + 2" by blast
  then show "2 \<le> k" "k - 2 \<in> set (unit_starts input 0)" "input ! (k - 2) = 27"
    "input ! (k - 1) = 91" by simp_all
  fix t
  assume "state_at e input 0 s (k - 2) = Some t"
  then have "state_at e input 0 s (u + 3) = Some t"
    using escape_unit_skips(2) [OF u(1,2,4,3), of e s t] u(5) a by simp
  then show "state_at e input 0 s (k + 1) = Some t" using u(5) by (simp add: numeral_3_eq_3)
qed

text \<open>
  Against claim C2 as stated (nothing is inserted as a result of a non-matching
  sequence). \<open>ESC O A\<close> inserts \<open>OA\<close>, an \<open>ESC [\<close> that ends the chunk inserts \<open>[\<close>, and
  \<open>ESC [ 3 ~\<close> inserts \<open>~\<close>.
\<close>

theorem C2_counterexample:
  "getMultiLineInput brahma [[27, 79, 65]] =
     Listening \<lparr>inputBuffer = [], currentLine = [79, 65], cursorPos = 2,
       trace = [Set_raw_mode True, Stdin_resume, Stdout_write getUserPrompt,
                Stdout_write [79], Stdout_write [65]]\<rparr>
   \<and> getMultiLineInput brahma [[27, 91]] =
     Listening \<lparr>inputBuffer = [], currentLine = [91], cursorPos = 1,
       trace = [Set_raw_mode True, Stdin_resume, Stdout_write getUserPrompt, Stdout_write [91]]\<rparr>
   \<and> getMultiLineInput brahma [[27, 91, 51, 126]] =
     Listening \<lparr>inputBuffer = [], currentLine = [126], cursorPos = 1,
       trace = [Set_raw_mode True, Stdin_resume, Stdout_write getUserPrompt, Stdout_write [126]]\<rparr>"
  by (simp add: eval_defs)

text \<open>
  In \<open>ESC O A\<close> the ESC is a unit of its own: the loop stands at index 1 in the state
  it had, and at index 2 the \<open>O\<close> is inserted. \<open>ESC [ Z\<close> is stepped over as a whole.
  In \<open>ESC [ ESC a\<close> the second ESC starts no unit and is stepped over with the first.
\<close>

theorem C2_witness:
  "0 \<in> set (unit_starts [27, 79, 65] 0) \<and> [27::nat, 79, 65] ! 0 = 27
   \<and> next_index [27, 79, 65] 0 = 1
   \<and> state_at brahma [27, 79, 65] 0 (initial brahma) 1 = Some (initial brahma)
   \<and> state_at brahma [27, 79, 65] 0 (initial brahma) 2 = Some (printable 79 (initial brahma))
   \<and> currentLine (printable 79 (initial brahma)) = [79]
   \<and> 0 \<in> set (unit_starts [27, 91, 90, 97] 0)
   \<and> next_index [27, 91, 90, 97] 0 = 3
   \<and> state_at brahma [27, 91, 90, 97] 0 (initial brahma) 3 = Some (initial brahma)
   \<and> 2 \<notin> set (unit_starts [27, 91, 27, 97] 0)
   \<and> state_at brahma [27, 91, 27, 97] 0 (initial brahma) 3 = Some (initial brahma)"
proof -
  have us: "0 \<in> set (unit_starts [27, 79, 65] 0)" "0 \<in> set (unit_starts [27, 91, 90, 97] 0)"
    "2 \<notin> set (unit_starts [27, 91, 27, 97] 0)"
    by (simp_all add: unit_defs)
  have st: "state_at brahma input 0 (initial brahma) 0 = Some (initial brahma)" for input
    by (simp add: state_at.simps)
  have a: "next_index [27, 79, 65] 0 = 1
      \<and> state_at brahma [27, 79, 65] 0 (initial brahma) 1 = Some (initial brahma)
      \<and> state_at brahma [27, 79, 65] 0 (initial brahma) 2 = Some (printable 79 (initial brahma))
      \<and> currentLine (printable 79 (initial brahma)) = [79]"
    using C2 [where u = 0 and input = "[27, 79, 65]" and e = brahma and s = "initial brahma",
        THEN conjunct1] us(1) st [of "[27, 79, 65]"]
    by (simp add: initial_def next_index_def numeral_2_eq_2)
  have b: "next_index [27, 91, 90, 97] 0 = 3
      \<and> state_at brahma [27, 91, 90, 97] 0 (initial brahma) 3 = Some (initial brahma)"
    using C2 [where u = 0 and input = "[27, 91, 90, 97]" and e = brahma and s = "initial brahma",
        THEN conjunct1] us(2) st [of "[27, 91, 90, 97]"]
    by (simp add: next_index_def numeral_3_eq_3)
  have c: "state_at brahma [27, 91, 27, 97] 0 (initial brahma) 3 = Some (initial brahma)"
    using C2 [where k = 2 and input = "[27, 91, 27, 97]" and e = brahma and s = "initial brahma",
        THEN conjunct2, THEN conjunct2] us(3) st [of "[27, 91, 27, 97]"]
    by simp
  show ?thesis using us a b c by simp
qed

section \<open>Lines typed one after the other\<close>

lemma join_lines_Cons: "join_lines (l # ls) = l @ concat (map ((#) 10) ls)"
  by (induction ls arbitrary: l) simp_all

lemma append_line_nonempty:
  "b \<noteq> [] \<Longrightarrow> append_line (foldl append_line b ls) cur = b @ concat (map ((#) 10) (ls @ [cur]))"
proof (induction ls arbitrary: b)
  case Nil
  then show ?case by (simp add: append_line_def)
next
  case (Cons l ls)
  have "append_line b l = b @ 10 # l" "append_line b l \<noteq> []"
    using Cons.prems by (simp_all add: append_line_def)
  then show ?case using Cons.IH [of "append_line b l"] by simp
qed

lemma buffer_is_join:
  "\<exists>k. join_lines (ls @ [cur]) = replicate k 10 @ append_line (foldl append_line [] ls) cur"
proof (induction ls)
  case Nil
  have "join_lines ([] @ [cur]) = replicate 0 10 @ append_line (foldl append_line [] []) cur"
    by (simp add: append_line_def)
  then show ?case by blast
next
  case (Cons l ls)
  show ?case
  proof (cases "l = []")
    case True
    from Cons.IH obtain k where
      k: "join_lines (ls @ [cur]) = replicate k 10 @ append_line (foldl append_line [] ls) cur"
      by blast
    have "join_lines ((l # ls) @ [cur]) = 10 # join_lines (ls @ [cur])"
      using True by (cases ls) simp_all
    then have "join_lines ((l # ls) @ [cur])
        = replicate (Suc k) 10 @ append_line (foldl append_line [] (l # ls)) cur"
      using k True by (simp add: append_line_def)
    then show ?thesis by blast
  next
    case False
    have "append_line (foldl append_line [] (l # ls)) cur = l @ concat (map ((#) 10) (ls @ [cur]))"
      using append_line_nonempty [OF False, of ls cur] by (simp add: append_line_def)
    then have "join_lines ((l # ls) @ [cur])
        = replicate 0 10 @ append_line (foldl append_line [] (l # ls)) cur"
      by (simp add: join_lines_Cons)
    then show ?thesis by blast
  qed
qed

lemma trim_leading_newlines: "trim (replicate k 10 @ x) = trim x"
  by (simp add: trim_def dropWhile_append is_whitespace_10)

lemma trim_buffer_is_trim_join:
  "trim (append_line (foldl append_line [] ls) cur) = trim (join_lines (ls @ [cur]))"
  using buffer_is_join [of ls cur] by (auto simp: trim_leading_newlines)

lemma feed_append:
  "feed e s (xs @ ys) = (case feed e s xs of Listening s' \<Rightarrow> feed e s' ys | r \<Rightarrow> r)"
  by (induction xs arbitrary: s) (auto split: outcome.splits)

lemma onData_line_feed: "onData e [10] s = Listening (line_feed s)"
proof -
  have "onData_loop e [10] 0 s = onData_loop e [10] (0 + 1) (line_feed s)"
    by (rule onData_loop_next) (simp_all add: loop_body_line_feed)
  then show ?thesis by (simp add: onData_def onData_loop_end)
qed

lemma line_typed:
  assumes "\<forall>c\<in>set l. 32 \<le> c \<and> c \<le> 126" "currentLine s = []" "cursorPos s = 0"
  shows "\<exists>s'. feed e s [l, [10]] = Listening s'
     \<and> inputBuffer s' = append_line (inputBuffer s) l \<and> currentLine s' = [] \<and> cursorPos s' = 0"
proof -
  have "feed e s [l] = Listening (s\<lparr>currentLine := currentLine s @ concat [l],
                  cursorPos := int (length (currentLine s @ concat [l])),
                  trace := trace s @ map (\<lambda>c. Stdout_write [c]) (concat [l])\<rparr>)"
    by (rule printable_feed) (simp_all add: assms)
  then have "feed e s ([l] @ [[10]]) = Listening (line_feed (s\<lparr>currentLine := l,
                  cursorPos := int (length l),
                  trace := trace s @ map (\<lambda>c. Stdout_write [c]) l\<rparr>))"
    by (simp only: feed_append) (simp add: assms(2) onData_line_feed)
  then show ?thesis by (simp add: line_feed_def emit_def)
qed

lemma lines_typed:
  "\<forall>l\<in>set ls. \<forall>c\<in>set l. 32 \<le> c \<and> c \<le> 126 \<Longrightarrow> currentLine s = [] \<Longrightarrow> cursorPos s = 0 \<Longrightarrow>
   \<exists>s'. feed e s (concat (map (\<lambda>l. [l, [10]]) ls)) = Listening s'
     \<and> inputBuffer s' = foldl append_line (inputBuffer s) ls \<and> currentLine s' = []
     \<and> cursorPos s' = 0"
proof (induction ls arbitrary: s)
  case Nil
  then show ?case by simp
next
  case (Cons l ls)
  have "\<forall>c\<in>set l. 32 \<le> c \<and> c \<le> 126" using Cons.prems(1) by simp
  from line_typed [OF this Cons.prems(2,3), of e]
  obtain s1 where s1: "feed e s [l, [10]] = Listening s1"
    "inputBuffer s1 = append_line (inputBuffer s) l" "currentLine s1 = []" "cursorPos s1 = 0"
    by blast
  have rest: "\<forall>l\<in>set ls. \<forall>c\<in>set l. 32 \<le> c \<and> c \<le> 126" using Cons.prems(1) by simp
  from Cons.IH [OF rest s1(3,4)]
  obtain s' where s': "feed e s1 (concat (map (\<lambda>l. [l, [10]]) ls)) = Listening s'"
    "inputBuffer s' = foldl append_line (inputBuffer s1) ls" "currentLine s' = []"
    "cursorPos s' = 0"
    by blast
  have "feed e s (concat (map (\<lambda>l. [l, [10]]) (l # ls)))
      = feed e s ([l, [10]] @ concat (map (\<lambda>l. [l, [10]]) ls))"
    by simp
  also have "\<dots> = Listening s'"
    by (simp only: feed_append s1(1) s'(1) outcome.case)
  finally show ?case using s' s1(2) by auto
qed

lemma set_append_line: "set b \<subseteq> set (append_line b l) \<and> set l \<subseteq> set (append_line b l)"
  by (auto simp: append_line_def)

lemma set_foldl_keeps: "set b \<subseteq> set (foldl append_line b xs)"
proof (induction xs arbitrary: b)
  case Nil
  show ?case by simp
next
  case (Cons x xs)
  have "set b \<subseteq> set (append_line b x)" by (simp add: set_append_line)
  also have "\<dots> \<subseteq> set (foldl append_line (append_line b x) xs)" by (rule Cons.IH)
  finally show ?case by simp
qed

lemma set_foldl_append_line:
  "l \<in> set ls \<Longrightarrow> set l \<subseteq> set (foldl append_line b ls)"
proof (induction ls arbitrary: b)
  case Nil
  then show ?case by simp
next
  case (Cons x xs)
  show ?case
  proof (cases "l = x")
    case True
    have "set l \<subseteq> set (append_line b x)" using True by (simp add: set_append_line)
    also have "\<dots> \<subseteq> set (foldl append_line (append_line b x) xs)" by (rule set_foldl_keeps)
    finally show ?thesis by simp
  next
    case False
    then show ?thesis using Cons by simp
  qed
qed

lemma onData_enter_resolves:
  assumes "(\<exists>c\<in>set (currentLine s). \<not> is_whitespace c) \<or> (\<exists>c\<in>set (inputBuffer s). \<not> is_whitespace c)"
  shows "returned (onData e [13] s) = Some (trim (append_line (inputBuffer s) (currentLine s)))"
proof -
  have "loop_body e [13] 0 s = enter e [13] 0 s" by (simp add: loop_body_enter)
  then show ?thesis
    using enter_resolves [OF assms, of e "[13]" 0]
    by (simp add: onData_def onData_loop_done)
qed

lemma typed_lines_returned:
  assumes printable: "\<forall>l\<in>set (ls @ [cur]). \<forall>c\<in>set l. 32 \<le> c \<and> c \<le> 126"
    and content: "\<exists>l\<in>set (ls @ [cur]). \<exists>c\<in>set l. \<not> is_whitespace c"
  shows "returned (getMultiLineInput e (concat (map (\<lambda>l. [l, [10]]) ls) @ [cur, [13]]))
           = Some (trim (join_lines (ls @ [cur])))"
proof -
  have p1: "\<forall>l\<in>set ls. \<forall>c\<in>set l. 32 \<le> c \<and> c \<le> 126" using printable by simp
  have p2: "\<forall>c\<in>set cur. 32 \<le> c \<and> c \<le> 126" using printable by simp
  from lines_typed [OF p1, of "initial e" e]
  obtain s1 where s1: "feed e (initial e) (concat (map (\<lambda>l. [l, [10]]) ls)) = Listening s1"
    "inputBuffer s1 = foldl append_line [] ls" "currentLine s1 = []" "cursorPos s1 = 0"
    by (auto simp: initial_def)
  let ?s2 = "s1\<lparr>currentLine := cur, cursorPos := int (length cur),
                  trace := trace s1 @ map (\<lambda>c. Stdout_write [c]) cur\<rparr>"
  have s2: "feed e s1 [cur] = Listening ?s2"
    using printable_feed [of "[cur]" s1 e] p2 s1(3,4) by simp
  have "(\<exists>c\<in>set (currentLine ?s2). \<not> is_whitespace c) \<or> (\<exists>c\<in>set (inputBuffer ?s2). \<not> is_whitespace c)"
    using content set_foldl_append_line [of _ ls "[]"] s1(2) by auto
  then have r: "returned (onData e [13] ?s2)
      = Some (trim (append_line (inputBuffer ?s2) (currentLine ?s2)))"
    by (rule onData_enter_resolves)
  have "feed e s1 ([cur] @ [[13]]) = onData e [13] ?s2"
    by (simp only: feed_append s2 outcome.case) (simp split: outcome.splits)
  then have "returned (feed e s1 [cur, [13]]) = Some (trim (append_line (foldl append_line [] ls) cur))"
    using r s1(2) by simp
  moreover have "getMultiLineInput e (concat (map (\<lambda>l. [l, [10]]) ls) @ [cur, [13]])
      = feed e s1 [cur, [13]]"
    by (simp only: getMultiLineInput_def feed_append s1(1) outcome.case)
  ultimately show ?thesis by (simp add: trim_buffer_is_trim_join)
qed

text \<open>
  Claim C1, as the code has it. At a CR the read is resolved if and only if the current
  line or \<open>inputBuffer\<close> (the committed lines, joined by \<open>\n\<close>) holds a code unit that
  is not whitespace. Then the current line is appended to \<open>inputBuffer\<close> (after a
  \<open>\n\<close>, unless the buffer is empty), raw mode is set back and the promise is
  resolved with the trim of the buffer. When everything is blank nothing is returned and
  \<open>\n\<close> and the prompt are written, but the buffer does not stay as it was: the
  current line is reset to the empty string and the cursor to column 0, and a non-empty
  \<open>inputBuffer\<close> takes the blank line up. When lines of printable characters are
  typed, each committed by an LF, and the last one is submitted by a CR, and some line
  is not blank, the value returned is the trim of the lines joined by \<open>\n\<close>: the
  buffer differs from the join only by line breaks at its head, which the trim removes.
  The bytes \<open>Hi\<close>, LF, \<open>there\<close>, CR make \<open>getMultiLineInput\<close> return \<open>Hi\nthere\<close>.
\<close>

theorem C1:
  assumes "i < length input" and "input ! i = 13"
  shows "((\<exists>c\<in>set (currentLine s). \<not> is_whitespace c) \<or> (\<exists>c\<in>set (inputBuffer s). \<not> is_whitespace c) \<longrightarrow>
            loop_body e input i s =
              Done (Resolved
                (trim (if inputBuffer s = [] then currentLine s
                       else inputBuffer s @ [10] @ currentLine s))
                (s\<lparr>inputBuffer := (if inputBuffer s = [] then currentLine s
                                    else inputBuffer s @ [10] @ currentLine s),
                   trace := trace s @
                     [Set_raw_mode (originalRawMode e), Remove_data_listener, Stdout_write [10],
                      Promise_resolve
                        (trim (if inputBuffer s = [] then currentLine s
                               else inputBuffer s @ [10] @ currentLine s))]\<rparr>)))
       \<and> ((\<forall>c\<in>set (currentLine s). is_whitespace c) \<and> (\<forall>c\<in>set (inputBuffer s). is_whitespace c) \<longrightarrow>
            loop_body e input i s =
              Next (if i + 1 < length input \<and> input ! (i + 1) = 10 then i + 2 else i + 1)
                (s\<lparr>inputBuffer := (if inputBuffer s = [] then []
                                    else inputBuffer s @ [10] @ currentLine s),
                   currentLine := [], cursorPos := 0,
                   trace := trace s @ [Stdout_write ([10] @ userPrompt e)]\<rparr>))
       \<and> ((\<forall>l\<in>set (ls @ [cur]). \<forall>c\<in>set l. 32 \<le> c \<and> c \<le> 126)
            \<and> (\<exists>l\<in>set (ls @ [cur]). \<exists>c\<in>set l. \<not> is_whitespace c) \<longrightarrow>
          returned (getMultiLineInput e (concat (map (\<lambda>l. [l, [10]]) ls) @ [cur, [13]]))
            = Some (trim (join_lines (ls @ [cur]))))
       \<and> returned (getMultiLineInput e [str ''Hi'' @ [10] @ str ''there'' @ [13]])
           = Some (str ''Hi'' @ [10] @ str ''there'')"
proof (intro conjI impI)
  assume "(\<exists>c\<in>set (currentLine s). \<not> is_whitespace c) \<or> (\<exists>c\<in>set (inputBuffer s). \<not> is_whitespace c)"
  then show "loop_body e input i s =
              Done (Resolved
                (trim (if inputBuffer s = [] then currentLine s
                       else inputBuffer s @ [10] @ currentLine s))
                (s\<lparr>inputBuffer := (if inputBuffer s = [] then currentLine s
                                    else inputBuffer s @ [10] @ currentLine s),
                   trace := trace s @
                     [Set_raw_mode (originalRawMode e), Remove_data_listener, Stdout_write [10],
                      Promise_resolve
                        (trim (if inputBuffer s = [] then currentLine s
                               else inputBuffer s @ [10] @ currentLine s))]\<rparr>))"
    using enter_resolves [of s e input i] loop_body_enter [OF assms(2)]
    by (simp add: append_line_def)
next
  assume "(\<forall>c\<in>set (currentLine s). is_whitespace c) \<and> (\<forall>c\<in>set (inputBuffer s). is_whitespace c)"
  then show "loop_body e input i s =
              Next (if i + 1 < length input \<and> input ! (i + 1) = 10 then i + 2 else i + 1)
                (s\<lparr>inputBuffer := (if inputBuffer s = [] then []
                                    else inputBuffer s @ [10] @ currentLine s),
                   currentLine := [], cursorPos := 0,
                   trace := trace s @ [Stdout_write ([10] @ userPrompt e)]\<rparr>)"
    using enter_absorbed [of s e input i] loop_body_enter [OF assms(2)] by simp
next
  assume "(\<forall>l\<in>set (ls @ [cur]). \<forall>c\<in>set l. 32 \<le> c \<and> c \<le> 126)
            \<and> (\<exists>l\<in>set (ls @ [cur]). \<exists>c\<in>set l. \<not> is_whitespace c)"
  then show "returned (getMultiLineInput e (concat (map (\<lambda>l. [l, [10]]) ls) @ [cur, [13]]))
            = Some (trim (join_lines (ls @ [cur])))"
    using typed_lines_returned [of ls cur e] by blast
next
  show "returned (getMultiLineInput e [str ''Hi'' @ [10] @ str ''there'' @ [13]])
           = Some (str ''Hi'' @ [10] @ str ''there'')"
    by (simp add: getMultiLineInput_def initial_def onData_def onData_loop.simps loop_body_def
        enter_def printable_def move_back_def line_feed_def cleanup_def emit_def append_line_def
        trim_def is_whitespace_def slice_def slice_from_def str_def Let_def)
qed

text \<open>
  Against claim C1 as stated (a blank Submit is a no-op). After two spaces the current
  line is \<open>"  "\<close> with the cursor at column 2; the CR that follows is absorbed and
  leaves the empty line with the cursor at column 0. The difference reaches the caller:
  typing \<open>a\<close>, three left arrows, \<open>b\<close> and CR afterwards returns \<open>ba\<close>, where the same
  keys without the absorbed CR return \<open>b  a\<close>.
\<close>

theorem C1_counterexample:
  "getMultiLineInput brahma [[32, 32]] =
     Listening \<lparr>inputBuffer = [], currentLine = [32, 32], cursorPos = 2,
       trace = [Set_raw_mode True, Stdin_resume, Stdout_write getUserPrompt,
                Stdout_write [32], Stdout_write [32]]\<rparr>
   \<and> getMultiLineInput brahma [[32, 32], [13]] =
     Listening \<lparr>inputBuffer = [], currentLine = [], cursorPos = 0,
       trace = [Set_raw_mode True, Stdin_resume, Stdout_write getUserPrompt,
                Stdout_write [32], Stdout_write [32], Stdout_write (10 # getUserPrompt)]\<rparr>
   \<and> returned (getMultiLineInput brahma
         [[32, 32], [13], [97], [27, 91, 68], [27, 91, 68], [27, 91, 68], [98], [13]])
       = Some [98, 97]
   \<and> returned (getMultiLineInput brahma
         [[32, 32], [97], [27, 91, 68], [27, 91, 68], [27, 91, 68], [98], [13]])
       = Some [98, 32, 32, 97]"
  by (simp add: eval_defs)

text \<open>
  A CR with \<open>Oh\<close> committed and \<open>Hi\<close> on the current line resolves with \<open>Oh\nHi\<close>;
  a CR on two spaces, with one space committed, is absorbed; an empty line, \<open>Hi\<close> and
  \<open>Oh\<close>, typed line by line, return \<open>Hi\nOh\<close>.
\<close>

theorem C1_witness:
  "(2::nat) < length [72::nat, 105, 13] \<and> [72::nat, 105, 13] ! 2 = 13
   \<and> loop_body brahma [72, 105, 13] 2
        \<lparr>inputBuffer = [79, 104], currentLine = [72, 105], cursorPos = 2, trace = []\<rparr>
      = Done (Resolved [79, 104, 10, 72, 105]
          \<lparr>inputBuffer = [79, 104, 10, 72, 105], currentLine = [72, 105], cursorPos = 2,
           trace = [Set_raw_mode False, Remove_data_listener, Stdout_write [10],
                    Promise_resolve [79, 104, 10, 72, 105]]\<rparr>)
   \<and> loop_body brahma [72, 105, 13] 2
        \<lparr>inputBuffer = [32], currentLine = [32, 32], cursorPos = 1, trace = []\<rparr>
      = Next 3 \<lparr>inputBuffer = [32, 10, 32, 32], currentLine = [], cursorPos = 0,
                trace = [Stdout_write (10 # getUserPrompt)]\<rparr>
   \<and> returned (getMultiLineInput brahma [[], [10], [72, 105], [10], [79, 104], [13]])
      = Some [72, 105, 10, 79, 104]"
  using C1 [of 2 "[72, 105, 13]"
      "\<lparr>inputBuffer = [79, 104], currentLine = [72, 105], cursorPos = 2, trace = []\<rparr>" brahma]
    C1 [of 2 "[72, 105, 13]"
      "\<lparr>inputBuffer = [32], currentLine = [32, 32], cursorPos = 1, trace = []\<rparr>" brahma
      "[[], [72, 105]]" "[79, 104]"]
  by (simp add: is_whitespace_def trim_def brahma_def)

section \<open>The menu\<close>

lemma onKeyPress_up:
  "onKeyPress opts arrow_up m =
     Menu_listening (m\<lparr>selectedIndex :=
         (if selectedIndex m > 0 then selectedIndex m - 1 else int (length opts) - 1),
       menu_trace := menu_trace m @
         [Display_menu (if selectedIndex m > 0 then selectedIndex m - 1 else int (length opts) - 1)]\<rparr>)"
  by (simp add: onKeyPress_def arrow_up_def displayMenu_def menu_emit_def)

lemma onKeyPress_down:
  "onKeyPress opts arrow_down m =
     Menu_listening (m\<lparr>selectedIndex :=
         (if selectedIndex m < int (length opts) - 1 then selectedIndex m + 1 else 0),
       menu_trace := menu_trace m @
         [Display_menu (if selectedIndex m < int (length opts) - 1 then selectedIndex m + 1 else 0)]\<rparr>)"
  by (simp add: onKeyPress_def arrow_down_def displayMenu_def menu_emit_def)

lemma up_mod:
  assumes "0 < n" "0 \<le> k" "k < n"
  shows "(if k > 0 then k - 1 else n - 1) = (k - 1 + n) mod (n::int)"
proof (cases "k > 0")
  case True
  have "(k - 1 + n) mod n = (k - 1) mod n" by simp
  also have "\<dots> = k - 1" using True assms by simp
  finally show ?thesis using True by simp
next
  case False
  then have k: "k = 0" using assms by simp
  have "- 1 mod n = n - 1" using assms(1) by (rule zmod_minus1)
  then show ?thesis using k by simp
qed

lemma down_mod:
  assumes "0 < n" "0 \<le> k" "k < n"
  shows "(if k < n - 1 then k + 1 else 0) = (k + 1) mod (n::int)"
proof (cases "k < n - 1")
  case True
  then show ?thesis using assms by simp
next
  case False
  then have "k + 1 = n" using assms by simp
  then show ?thesis using False by simp
qed

lemma up_in_range:
  "0 < n \<Longrightarrow> 0 \<le> k \<Longrightarrow> k < n \<Longrightarrow>
   0 \<le> (if k > 0 then k - 1 else n - 1) \<and> (if k > 0 then k - 1 else n - 1) < (n::int)"
  by auto

lemma down_after_up:
  "0 < n \<Longrightarrow> 0 \<le> k \<Longrightarrow> k < n \<Longrightarrow>
   (if (if k > 0 then k - 1 else n - 1) < n - 1 then (if k > 0 then k - 1 else n - 1) + 1 else 0)
     = (k::int)"
  by auto

lemma menu_feed_append:
  "menu_feed opts m (xs @ ys) =
     (case menu_feed opts m xs of Menu_listening m' \<Rightarrow> menu_feed opts m' ys | r \<Rightarrow> r)"
  by (induction xs arbitrary: m) (auto split: menu_outcome.splits)

lemma up_down_roundtrip:
  "0 < length opts \<Longrightarrow> 0 \<le> selectedIndex m \<Longrightarrow> selectedIndex m < int (length opts) \<Longrightarrow>
   \<exists>m'. menu_feed opts m (replicate k arrow_up @ replicate k arrow_down) = Menu_listening m'
      \<and> selectedIndex m' = selectedIndex m"
proof (induction k arbitrary: m)
  case 0
  then show ?case by simp
next
  case (Suc k)
  let ?n = "int (length opts)"
  let ?j = "if selectedIndex m > 0 then selectedIndex m - 1 else ?n - 1"
  have n: "0 < ?n" using Suc.prems(1) by simp
  obtain m1 where m1: "onKeyPress opts arrow_up m = Menu_listening m1" "selectedIndex m1 = ?j"
    by (simp add: onKeyPress_up)
  have r1: "0 \<le> selectedIndex m1" "selectedIndex m1 < ?n"
    using up_in_range [OF n Suc.prems(2,3)] m1(2) by simp_all
  from Suc.IH [OF Suc.prems(1) r1]
  obtain m2 where m2: "menu_feed opts m1 (replicate k arrow_up @ replicate k arrow_down)
      = Menu_listening m2" "selectedIndex m2 = selectedIndex m1" by blast
  obtain m3 where m3: "onKeyPress opts arrow_down m2 = Menu_listening m3"
    "selectedIndex m3 = (if selectedIndex m2 < ?n - 1 then selectedIndex m2 + 1 else 0)"
    by (simp add: onKeyPress_down)
  have "selectedIndex m3 = (if ?j < ?n - 1 then ?j + 1 else 0)"
    by (simp only: m3(2) m2(2) m1(2))
  also have "\<dots> = selectedIndex m"
    using n Suc.prems(2,3) by (rule down_after_up)
  finally have same_index: "selectedIndex m3 = selectedIndex m" .
  have lists: "replicate (Suc k) arrow_up @ replicate (Suc k) arrow_down
      = arrow_up # (replicate k arrow_up @ replicate k arrow_down) @ [arrow_down]"
    by (simp add: replicate_append_same)
  have "menu_feed opts m (arrow_up # (replicate k arrow_up @ replicate k arrow_down) @ [arrow_down])
      = menu_feed opts m1 ((replicate k arrow_up @ replicate k arrow_down) @ [arrow_down])"
    using m1(1) by simp
  also have "\<dots> = menu_feed opts m2 [arrow_down]"
    by (simp only: menu_feed_append [of opts m1 "replicate k arrow_up @ replicate k arrow_down"]
        m2(1) menu_outcome.case)
  also have "\<dots> = Menu_listening m3"
    using m3(1) by simp
  finally have "menu_feed opts m (replicate (Suc k) arrow_up @ replicate (Suc k) arrow_down)
      = Menu_listening m3"
    by (simp only: lists)
  then show ?case using same_index by blast
qed

text \<open>
  Claim C6. For a menu of \<open>n \<ge> 1\<close> options and a selected index in \<open>[0, n)\<close>, the up
  arrow sets \<open>selectedIndex\<close> to \<open>(selectedIndex - 1 + n) mod n\<close> and the down arrow to
  \<open>(selectedIndex + 1) mod n\<close>, and the index stays in \<open>[0, n)\<close>. For every \<open>k\<close>,
  \<open>k\<close> up arrows followed by \<open>k\<close> down arrows bring the index back to where it was.
  With the two options of the source, down, down, Enter selects the key \<open>1\<close>.
\<close>

theorem C6:
  assumes "1 \<le> length opts" and "0 \<le> selectedIndex m" and "selectedIndex m < int (length opts)"
  shows "(\<exists>m'. onKeyPress opts arrow_up m = Menu_listening m'
            \<and> selectedIndex m' = (selectedIndex m - 1 + int (length opts)) mod int (length opts)
            \<and> 0 \<le> selectedIndex m' \<and> selectedIndex m' < int (length opts))
       \<and> (\<exists>m'. onKeyPress opts arrow_down m = Menu_listening m'
            \<and> selectedIndex m' = (selectedIndex m + 1) mod int (length opts)
            \<and> 0 \<le> selectedIndex m' \<and> selectedIndex m' < int (length opts))
       \<and> (\<exists>m'. menu_feed opts m (replicate k arrow_up @ replicate k arrow_down) = Menu_listening m'
            \<and> selectedIndex m' = selectedIndex m)
       \<and> choice (awaitChoice options first_menu [arrow_down, arrow_down, [13]]) = Some (str ''1'')"
proof -
  let ?n = "int (length opts)"
  have n': "0 < length opts" using assms(1) by linarith
  then have n: "0 < ?n" by simp
  have up: "\<exists>m'. onKeyPress opts arrow_up m = Menu_listening m'
            \<and> selectedIndex m' = (selectedIndex m - 1 + ?n) mod ?n
            \<and> 0 \<le> selectedIndex m' \<and> selectedIndex m' < ?n"
    using up_mod [OF n assms(2,3)] n by (simp add: onKeyPress_up)
  have down: "\<exists>m'. onKeyPress opts arrow_down m = Menu_listening m'
            \<and> selectedIndex m' = (selectedIndex m + 1) mod ?n
            \<and> 0 \<le> selectedIndex m' \<and> selectedIndex m' < ?n"
    using down_mod [OF n assms(2,3)] n by (simp add: onKeyPress_down)
  have scenario: "choice (awaitChoice options first_menu [arrow_down, arrow_down, [13]])
      = Some (str ''1'')"
    by (simp add: awaitChoice_def first_menu_def options_def onKeyPress_def arrow_down_def
        displayMenu_def menu_emit_def release_def str_def)
  show ?thesis
    using up down up_down_roundtrip [OF n' assms(2,3), of k] scenario by blast
qed

text \<open>
  With the two options and the second one selected, up gives index 0, down wraps to
  index 0, and three ups followed by three downs give index 1 again.
\<close>

theorem C6_witness:
  "1 \<le> length options \<and> (0::int) \<le> 1 \<and> (1::int) < int (length options)
   \<and> selected (onKeyPress options arrow_up \<lparr>selectedIndex = 1, menu_trace = []\<rparr>) = 0
   \<and> selected (onKeyPress options arrow_down \<lparr>selectedIndex = 1, menu_trace = []\<rparr>) = 0
   \<and> selected (menu_feed options \<lparr>selectedIndex = 1, menu_trace = []\<rparr>
         (replicate 3 arrow_up @ replicate 3 arrow_down)) = 1"
proof -
  have len: "length options = 2" by (simp add: options_def)
  show ?thesis
    using C6 [of options "\<lparr>selectedIndex = 1, menu_trace = []\<rparr>" 3]
    by (auto simp: len)
qed

lemma decimal_digit: "n < 10 \<Longrightarrow> decimal n = [48 + n]"
  by (simp add: decimal.simps)

text \<open>
  Claim C7. With the options of the source, whatever \<open>selectedIndex\<close> is, the digit
  \<open>d\<close> with \<open>1 \<le> d \<le> n\<close> releases the terminal and resolves the menu at once with
  \<open>options[d-1].key\<close>. The handler resolves with the string that was pressed; the
  keys of the options are the digits of their positions.
\<close>

theorem C7:
  assumes "1 \<le> d" and "d \<le> length options"
  shows "onKeyPress options (decimal d) m =
     Menu_resolved (key (options ! (d - 1)))
       (m\<lparr>menu_trace := menu_trace m @
          [Set_raw_mode False, Stdin_pause, Remove_data_listener,
           Promise_resolve (key (options ! (d - 1)))]\<rparr>)"
proof -
  have "d = 1 \<or> d = 2" using assms by (auto simp: options_def)
  then show ?thesis
    by (auto simp: onKeyPress_def options_def str_def release_def menu_emit_def decimal_digit)
qed

text \<open>Pressing \<open>2\<close> while the first option is selected resolves with the key \<open>2\<close>.\<close>

theorem C7_witness:
  "(1::nat) \<le> 2 \<and> 2 \<le> length options
   \<and> onKeyPress options [50] \<lparr>selectedIndex = 0, menu_trace = []\<rparr> =
     Menu_resolved [50]
       \<lparr>selectedIndex = 0,
        menu_trace = [Set_raw_mode False, Stdin_pause, Remove_data_listener, Promise_resolve [50]]\<rparr>"
  using C7 [of 2 "\<lparr>selectedIndex = 0, menu_trace = []\<rparr>"]
  by (simp add: options_def str_def decimal_digit)

end
